theory Spec2Isabelle
  imports Main "HOL-Library.List_Lexorder" "HOL-Library.Multiset"
begin

section \<open>Data model of pagetree\<close>

text \<open>
  The models of \<^verbatim>\<open>pagetree/models.py\<close> are rows of database tables. A table is the list of
  its rows in insertion order; a foreign key is the primary key of the row it points to.
  Every operation takes the database and returns the database it leaves behind, together
  with its result or the exception it raised: what was saved before an exception stays saved.
\<close>

datatype error =
    Http404
  | DoesNotExist
  | MultipleObjectsReturned
  | TypeError
  | AttributeError

text \<open>The request's user: \<^verbatim>\<open>is_anonymous()\<close> holds of \<open>AnonymousUser\<close> only.\<close>

datatype user = AnonymousUser | User (user_id: nat)

datatype pyval = PyNone | PyStr string

type_synonym block_dict = "string \<rightharpoonup> pyval"

text \<open>
  A content object (some subclass of \<^verbatim>\<open>BasePageBlock\<close>, or any model that follows its
  contract). The methods that \<^verbatim>\<open>Section\<close> and \<^verbatim>\<open>PageBlock\<close> probe with \<^verbatim>\<open>hasattr\<close> are
  optional: \<open>None\<close> is an object without the attribute, \<open>Some b\<close> one whose method returns
  \<open>b\<close>.
\<close>

record Block =
  display_name :: string
  needs_submit :: "bool option"
  redirect_to_self_on_submit :: "bool option"
  block_as_dict :: "block_dict option"

record Hierarchy =
  h_id :: nat
  h_name :: string
  h_base_url :: string

text \<open>
  A \<^verbatim>\<open>Section\<close> is a node of the tree library's materialized-path tree: \<open>s_path\<close> is the
  node's path, one number per step, and the node's depth is the length of its path.
\<close>

record Section =
  s_id :: nat
  s_path :: "nat list"
  s_label :: string
  s_slug :: string
  s_hierarchy :: nat

record PageBlock =
  pb_id :: nat
  pb_section :: nat
  pb_ordinality :: nat
  pb_label :: pyval
  pb_css_extra :: pyval
  pb_content_object :: Block

record UserLocation =
  ul_id :: nat
  ul_user :: nat
  ul_hierarchy :: nat
  ul_path :: string

record UserPageVisit =
  upv_id :: nat
  upv_user :: nat
  upv_section :: nat
  upv_status :: string
  upv_first_visit :: nat
  upv_last_visit :: nat

record db =
  hierarchy_objects :: "Hierarchy list"
  section_objects :: "Section list"
  pageblock_objects :: "PageBlock list"
  userlocation_objects :: "UserLocation list"
  userpagevisit_objects :: "UserPageVisit list"

definition empty_db :: db where
  "empty_db = \<lparr>hierarchy_objects = [], section_objects = [], pageblock_objects = [],
     userlocation_objects = [], userpagevisit_objects = []\<rparr>"

subsection \<open>The object-relational layer\<close>

text \<open>A new row gets a primary key above every key of its table.\<close>

definition next_id :: "nat list \<Rightarrow> nat" where
  "next_id ids = Suc (fold max ids 0)"

text \<open>\<^verbatim>\<open>objects.get(...)\<close>: the one row that matches, or an exception.\<close>

definition objects_get :: "('a \<Rightarrow> bool) \<Rightarrow> 'a list \<Rightarrow> error + 'a" where
  "objects_get P rows =
     (case filter P rows of
        [] \<Rightarrow> Inl DoesNotExist
      | [r] \<Rightarrow> Inr r
      | _ \<Rightarrow> Inl MultipleObjectsReturned)"

text \<open>\<^verbatim>\<open>UserLocation.objects.get_or_create(user=..., hierarchy=...)\<close>; the path of a new row is
  the field's default.\<close>

definition userlocation_get_or_create ::
  "db \<Rightarrow> nat \<Rightarrow> nat \<Rightarrow> db \<times> (error + UserLocation \<times> bool)" where
  "userlocation_get_or_create d u h =
     (case objects_get (\<lambda>r. ul_user r = u \<and> ul_hierarchy r = h) (userlocation_objects d) of
        Inr r \<Rightarrow> (d, Inr (r, False))
      | Inl DoesNotExist \<Rightarrow>
          (let ul = \<lparr>ul_id = next_id (map ul_id (userlocation_objects d)),
                     ul_user = u, ul_hierarchy = h, ul_path = ''/''\<rparr>
           in (d\<lparr>userlocation_objects := userlocation_objects d @ [ul]\<rparr>, Inr (ul, True)))
      | Inl e \<Rightarrow> (d, Inl e))"

text \<open>\<^verbatim>\<open>save()\<close> of an object that has a primary key: the row with that key is overwritten,
  and inserted when there is none.\<close>

definition userlocation_save :: "db \<Rightarrow> UserLocation \<Rightarrow> db" where
  "userlocation_save d ul =
     (if ul_id ul \<in> set (map ul_id (userlocation_objects d))
      then d\<lparr>userlocation_objects :=
               map (\<lambda>r. if ul_id r = ul_id ul then ul else r) (userlocation_objects d)\<rparr>
      else d\<lparr>userlocation_objects := userlocation_objects d @ [ul]\<rparr>)"

text \<open>\<^verbatim>\<open>UserPageVisit.objects.get_or_create(section=..., user=...)\<close> at time \<open>now\<close>:
  \<^verbatim>\<open>first_visit\<close> is \<^verbatim>\<open>auto_now_add\<close>, \<^verbatim>\<open>last_visit\<close> is \<^verbatim>\<open>auto_now\<close>.\<close>

definition userpagevisit_get_or_create ::
  "db \<Rightarrow> nat \<Rightarrow> nat \<Rightarrow> nat \<Rightarrow> db \<times> (error + UserPageVisit \<times> bool)" where
  "userpagevisit_get_or_create d now s u =
     (case objects_get (\<lambda>r. upv_section r = s \<and> upv_user r = u) (userpagevisit_objects d) of
        Inr r \<Rightarrow> (d, Inr (r, False))
      | Inl DoesNotExist \<Rightarrow>
          (let upv = \<lparr>upv_id = next_id (map upv_id (userpagevisit_objects d)),
                      upv_user = u, upv_section = s, upv_status = ''incomplete'',
                      upv_first_visit = now, upv_last_visit = now\<rparr>
           in (d\<lparr>userpagevisit_objects := userpagevisit_objects d @ [upv]\<rparr>, Inr (upv, True)))
      | Inl e \<Rightarrow> (d, Inl e))"

definition userpagevisit_save :: "db \<Rightarrow> nat \<Rightarrow> UserPageVisit \<Rightarrow> db" where
  "userpagevisit_save d now upv =
     (let upv' = upv\<lparr>upv_last_visit := now\<rparr>
      in if upv_id upv \<in> set (map upv_id (userpagevisit_objects d))
         then d\<lparr>userpagevisit_objects :=
                  map (\<lambda>r. if upv_id r = upv_id upv then upv' else r) (userpagevisit_objects d)\<rparr>
         else d\<lparr>userpagevisit_objects := userpagevisit_objects d @ [upv']\<rparr>)"

definition pageblock_save :: "db \<Rightarrow> PageBlock \<Rightarrow> db" where
  "pageblock_save d p =
     (if pb_id p \<in> set (map pb_id (pageblock_objects d))
      then d\<lparr>pageblock_objects :=
               map (\<lambda>r. if pb_id r = pb_id p then p else r) (pageblock_objects d)\<rparr>
      else d\<lparr>pageblock_objects := pageblock_objects d @ [p]\<rparr>)"

subsection \<open>The tree library (materialized paths)\<close>

text \<open>
  \<^verbatim>\<open>Section\<close> inherits its tree operations from the tree library's \<^verbatim>\<open>MP_Node\<close>. They are
  queries on the path column, answered in path order, which is the depth-first order of
  the forest: the children of a node are the rows one step below its path.
\<close>

definition get_depth :: "Section \<Rightarrow> nat" where
  "get_depth s = length (s_path s)"

definition is_root :: "Section \<Rightarrow> bool" where
  "is_root s = (get_depth s = 1)"

definition get_children :: "db \<Rightarrow> Section \<Rightarrow> Section list" where
  "get_children d s =
     sort_key s_path
       (filter (\<lambda>c. get_depth c = Suc (get_depth s) \<and> take (get_depth s) (s_path c) = s_path s)
          (section_objects d))"

definition is_leaf :: "db \<Rightarrow> Section \<Rightarrow> bool" where
  "is_leaf d s = (get_children d s = [])"

definition Section_get_root :: "db \<Rightarrow> Section \<Rightarrow> error + Section" where
  "Section_get_root d s = objects_get (\<lambda>r. s_path r = take 1 (s_path s)) (section_objects d)"

definition get_parent :: "db \<Rightarrow> Section \<Rightarrow> error + Section option" where
  "get_parent d s =
     (if get_depth s \<le> 1 then Inr None
      else (case objects_get (\<lambda>r. s_path r = butlast (s_path s)) (section_objects d) of
              Inl e \<Rightarrow> Inl e
            | Inr p \<Rightarrow> Inr (Some p)))"

text \<open>The branch of a node: the rows whose path starts with its path, the node itself
  among them, in path order.\<close>

definition get_branch :: "db \<Rightarrow> Section \<Rightarrow> Section list" where
  "get_branch d parent =
     sort_key s_path
       (filter (\<lambda>r. get_depth parent \<le> get_depth r \<and>
                    take (get_depth parent) (s_path r) = s_path parent)
          (section_objects d))"

text \<open>
  The library declares \<^verbatim>\<open>get_tree\<close> and \<^verbatim>\<open>get_annotated_list\<close> as class methods with an
  optional argument, \<^verbatim>\<open>get_tree(cls, parent=None)\<close> and
  \<^verbatim>\<open>get_annotated_list(cls, parent=None)\<close>: with a \<^verbatim>\<open>parent\<close> they list its branch, without
  one every node of the table, in path order. The annotated list pairs every node with its
  level below the first node listed; pagetree reads the nodes only.
\<close>

definition get_tree :: "db \<Rightarrow> Section option \<Rightarrow> Section list" where
  "get_tree d parent =
     (case parent of
        None \<Rightarrow> sort_key s_path (section_objects d)
      | Some p \<Rightarrow>
          if is_leaf d p then filter (\<lambda>r. s_id r = s_id p) (section_objects d)
          else get_branch d p)"

definition get_annotated_list :: "db \<Rightarrow> Section option \<Rightarrow> (Section \<times> nat) list" where
  "get_annotated_list d parent =
     (let nodes = get_tree d parent;
          start_depth = (case nodes of [] \<Rightarrow> 0 | n # ns \<Rightarrow> get_depth n)
      in map (\<lambda>n. (n, get_depth n - start_depth)) nodes)"

definition add_root :: "db \<Rightarrow> string \<Rightarrow> string \<Rightarrow> nat \<Rightarrow> db \<times> Section" where
  "add_root d label slug h =
     (let roots = sort_key s_path (filter (\<lambda>r. get_depth r = 1) (section_objects d));
          newpath = (if roots = [] then [1] else [Suc (last (s_path (last roots)))]);
          s = \<lparr>s_id = next_id (map s_id (section_objects d)), s_path = newpath,
               s_label = label, s_slug = slug, s_hierarchy = h\<rparr>
      in (d\<lparr>section_objects := section_objects d @ [s]\<rparr>, s))"

definition add_child :: "db \<Rightarrow> Section \<Rightarrow> string \<Rightarrow> string \<Rightarrow> nat \<Rightarrow> db \<times> Section" where
  "add_child d self label slug h =
     (let newpath = (if is_leaf d self then s_path self @ [1]
                     else s_path self @ [Suc (last (s_path (last (get_children d self))))]);
          s = \<lparr>s_id = next_id (map s_id (section_objects d)), s_path = newpath,
               s_label = label, s_slug = slug, s_hierarchy = h\<rparr>
      in (d\<lparr>section_objects := section_objects d @ [s]\<rparr>, s))"

subsection \<open>Strings\<close>

definition startswith :: "string \<Rightarrow> string \<Rightarrow> bool" where
  "startswith s p = (take (length p) s = p)"

definition endswith :: "string \<Rightarrow> string \<Rightarrow> bool" where
  "endswith s p = (length p \<le> length s \<and> drop (length s - length p) s = p)"

text \<open>\<^verbatim>\<open>s.split(sep)\<close> for a one-character separator: one more part than separators.\<close>

fun str_split :: "char \<Rightarrow> string \<Rightarrow> string list" where
  "str_split sep [] = [[]]"
| "str_split sep (c # cs) =
     (if c = sep then [] # str_split sep cs
      else (case str_split sep cs of
              [] \<Rightarrow> [[c]]
            | w # ws \<Rightarrow> (c # w) # ws))"

text \<open>\<^verbatim>\<open>"%d" % n\<close> for a primary key \<open>n\<close>: its decimal digits.\<close>

definition digit_char :: "nat \<Rightarrow> char" where
  "digit_char n = ''0123456789'' ! (n mod 10)"

fun str_of_nat :: "nat \<Rightarrow> string" where
  "str_of_nat n = (if n < 10 then [digit_char n] else str_of_nat (n div 10) @ [digit_char n])"

section \<open>Hierarchy\<close>

definition Hierarchy_get_absolute_url :: "Hierarchy \<Rightarrow> string" where
  "Hierarchy_get_absolute_url self = h_base_url self"

text \<open>\<^verbatim>\<open>get_root\<close>: the \<^verbatim>\<open>try\<close> block is the inner \<open>case\<close>, and only \<^verbatim>\<open>DoesNotExist\<close> is
  caught.\<close>

definition Hierarchy_get_root :: "db \<Rightarrow> Hierarchy \<Rightarrow> db \<times> (error + Section)" where
  "Hierarchy_get_root d self =
     (case (case objects_get (\<lambda>r. s_hierarchy r = h_id self \<and> s_label r = ''Root'')
                  (section_objects d) of
              Inl e \<Rightarrow> Inl e
            | Inr s \<Rightarrow> Section_get_root d s) of
        Inr root \<Rightarrow> (d, Inr root)
      | Inl DoesNotExist \<Rightarrow>
          (case add_root d ''Root'' '''' (h_id self) of (d', s) \<Rightarrow> (d', Inr s))
      | Inl e \<Rightarrow> (d, Inl e))"

definition get_top_level :: "db \<Rightarrow> Hierarchy \<Rightarrow> db \<times> (error + Section list)" where
  "get_top_level d self =
     (case Hierarchy_get_root d self of
        (d', Inl e) \<Rightarrow> (d', Inl e)
      | (d', Inr root) \<Rightarrow> (d', Inr (get_children d' root)))"

text \<open>The loop of \<^verbatim>\<open>find_section_from_path\<close> over the slugs of the path; \<open>slugs\<close> is the
  dictionary it builds from the children of the current node, where a later child replaces
  an earlier one of the same slug.\<close>

fun find_section_loop :: "db \<Rightarrow> Section \<Rightarrow> string list \<Rightarrow> Section option" where
  "find_section_loop d current [] = Some current"
| "find_section_loop d current (slug # rest) =
     (let slugs = fold (\<lambda>c m. m(s_slug c \<mapsto> c)) (get_children d current) Map.empty
      in case slugs slug of
           Some c \<Rightarrow> find_section_loop d c rest
         | None \<Rightarrow> None)"

definition find_section_from_path ::
  "db \<Rightarrow> Hierarchy \<Rightarrow> string \<Rightarrow> db \<times> (error + Section option)" where
  "find_section_from_path d self path0 =
     (let path = (if endswith path0 ''/'' then butlast path0 else path0)
      in case Hierarchy_get_root d self of
           (d', Inl e) \<Rightarrow> (d', Inl e)
         | (d', Inr root) \<Rightarrow>
             if path = '''' then (d', Inr (Some root))
             else (d', Inr (find_section_loop d' root (str_split CHR ''/'' path))))"

definition get_section_from_path :: "db \<Rightarrow> Hierarchy \<Rightarrow> string \<Rightarrow> db \<times> (error + Section)" where
  "get_section_from_path d self path =
     (case find_section_from_path d self path of
        (d', Inl e) \<Rightarrow> (d', Inl e)
      | (d', Inr None) \<Rightarrow> (d', Inl Http404)
      | (d', Inr (Some s)) \<Rightarrow> (d', Inr s))"

definition get_user_location :: "db \<Rightarrow> Hierarchy \<Rightarrow> user \<Rightarrow> db \<times> (error + string)" where
  "get_user_location d self usr =
     (case usr of
        AnonymousUser \<Rightarrow> (d, Inr ''/'')
      | User u \<Rightarrow>
          (case userlocation_get_or_create d u (h_id self) of
             (d', Inl e) \<Rightarrow> (d', Inl e)
           | (d', Inr (ul, created)) \<Rightarrow> (d', Inr (ul_path ul))))"

section \<open>Section\<close>

text \<open>The foreign key \<^verbatim>\<open>self.hierarchy\<close>, read as an object.\<close>

definition section_hierarchy :: "db \<Rightarrow> Section \<Rightarrow> error + Hierarchy" where
  "section_hierarchy d self = objects_get (\<lambda>h. h_id h = s_hierarchy self) (hierarchy_objects d)"

function Section_get_absolute_url :: "db \<Rightarrow> Section \<Rightarrow> error + string" where
  "Section_get_absolute_url d self =
     (if is_root self
      then (case section_hierarchy d self of
              Inl e \<Rightarrow> Inl e
            | Inr h \<Rightarrow> Inr (Hierarchy_get_absolute_url h))
      else (case get_parent d self of
              Inl e \<Rightarrow> Inl e
            | Inr None \<Rightarrow> Inl AttributeError
            | Inr (Some p) \<Rightarrow>
                (case Section_get_absolute_url d p of
                   Inl e \<Rightarrow> Inl e
                 | Inr url \<Rightarrow> Inr (url @ s_slug self @ ''/''))))"
  by pat_completeness auto

lemma objects_get_Inr: "objects_get P rows = Inr r \<Longrightarrow> P r \<and> r \<in> set rows"
  unfolding objects_get_def
  by (auto split: list.splits dest: Cons_eq_filterD[OF sym])

termination Section_get_absolute_url
proof (relation "measure (\<lambda>(d, s). length (s_path s))")
  show "wf (measure (\<lambda>(d, s). length (s_path s)))" by simp
next
  fix d :: db and self p and po :: "Section option"
  assume a: "\<not> is_root self" "get_parent d self = Inr po" "po = Some p"
  from a(2,3) have "1 < length (s_path self)"
    and "objects_get (\<lambda>r. s_path r = butlast (s_path self)) (section_objects d) = Inr p"
    by (auto simp: get_parent_def get_depth_def split: if_splits sum.splits)
  then have "s_path p = butlast (s_path self)" "1 < length (s_path self)"
    using objects_get_Inr by fastforce+
  then show "((d, p), (d, self)) \<in> measure (\<lambda>(d, s). length (s_path s))"
    by simp
qed

text \<open>\<^verbatim>\<open>Hierarchy.user_visit\<close>. A user that is not a row of the user table (the anonymous
  user) is no value of the foreign key: the lookup raises and nothing is stored.\<close>

definition Hierarchy_user_visit :: "db \<Rightarrow> Hierarchy \<Rightarrow> user \<Rightarrow> Section \<Rightarrow> db \<times> (error + unit)" where
  "Hierarchy_user_visit d self usr sec =
     (case Section_get_absolute_url d sec of
        Inl e \<Rightarrow> (d, Inl e)
      | Inr path \<Rightarrow>
          (case usr of
             AnonymousUser \<Rightarrow> (d, Inl TypeError)
           | User u \<Rightarrow>
               (case userlocation_get_or_create d u (h_id self) of
                  (d', Inl e) \<Rightarrow> (d', Inl e)
                | (d', Inr (ul, created)) \<Rightarrow>
                    (userlocation_save d' (ul\<lparr>ul_path := path\<rparr>), Inr ()))))"

definition Section_user_visit :: "db \<Rightarrow> Section \<Rightarrow> user \<Rightarrow> db \<times> (error + unit)" where
  "Section_user_visit d self usr =
     (case section_hierarchy d self of
        Inl e \<Rightarrow> (d, Inl e)
      | Inr h \<Rightarrow> Hierarchy_user_visit d h usr self)"

definition user_pagevisit :: "db \<Rightarrow> nat \<Rightarrow> Section \<Rightarrow> user \<Rightarrow> string \<Rightarrow> db \<times> (error + unit)" where
  "user_pagevisit d now self usr status =
     (case usr of
        AnonymousUser \<Rightarrow> (d, Inl TypeError)
      | User u \<Rightarrow>
          (case userpagevisit_get_or_create d now (s_id self) u of
             (d', Inl e) \<Rightarrow> (d', Inl e)
           | (d', Inr (upv, created)) \<Rightarrow>
               (userpagevisit_save d' now (upv\<lparr>upv_status := status\<rparr>), Inr ())))"

definition get_uservisit :: "db \<Rightarrow> Section \<Rightarrow> nat \<Rightarrow> UserPageVisit option" where
  "get_uservisit d self u =
     (case filter (\<lambda>r. upv_section r = s_id self \<and> upv_user r = u) (userpagevisit_objects d) of
        [] \<Rightarrow> None
      | r # _ \<Rightarrow> Some r)"

text \<open>
  The loops of \<^verbatim>\<open>get_previous\<close> and \<^verbatim>\<open>get_next\<close> over the enumerated traversal. Both
  methods compute \<^verbatim>\<open>self.get_root().get_annotated_list()\<close>: the root is looked up, which may
  raise, and the class method is called through it without a \<^verbatim>\<open>parent\<close>, so the list is
  that of the whole table.
\<close>

fun get_previous_loop ::
  "Section \<Rightarrow> (Section \<times> nat) list \<Rightarrow> (nat \<times> Section \<times> nat) list \<Rightarrow> Section option" where
  "get_previous_loop self dft [] = None"
| "get_previous_loop self dft ((i, (s, ai)) # rest) =
     (if s_id s = s_id self
      then (if i > 1 \<and> \<not> is_root (fst (dft ! (i - 1))) then Some (fst (dft ! (i - 1)))
            else None)
      else get_previous_loop self dft rest)"

definition get_previous :: "db \<Rightarrow> Section \<Rightarrow> error + Section option" where
  "get_previous d self =
     (case Section_get_root d self of
        Inl e \<Rightarrow> Inl e
      | Inr root \<Rightarrow>
          (let depth_first_traversal = get_annotated_list d None
           in Inr (get_previous_loop self depth_first_traversal
                     (enumerate 0 depth_first_traversal))))"

fun get_next_loop ::
  "Section \<Rightarrow> (Section \<times> nat) list \<Rightarrow> (nat \<times> Section \<times> nat) list \<Rightarrow> Section option" where
  "get_next_loop self dft [] = None"
| "get_next_loop self dft ((i, (s, ai)) # rest) =
     (if s_id s = s_id self
      then (if int i < int (length dft) - 1 then Some (fst (dft ! (i + 1))) else None)
      else get_next_loop self dft rest)"

definition get_next :: "db \<Rightarrow> Section \<Rightarrow> error + Section option" where
  "get_next d self =
     (case Section_get_root d self of
        Inl e \<Rightarrow> Inl e
      | Inr root \<Rightarrow>
          (let depth_first_traversal = get_annotated_list d None
           in Inr (get_next_loop self depth_first_traversal
                     (enumerate 0 depth_first_traversal))))"

text \<open>\<^verbatim>\<open>append_child\<close>; \<open>slugify\<close> is the template filter of the framework.\<close>

definition append_child ::
  "(string \<Rightarrow> string) \<Rightarrow> db \<Rightarrow> Section \<Rightarrow> string \<Rightarrow> string \<Rightarrow> db \<times> Section" where
  "append_child slugify d self label slug =
     add_child d self label (if slug = '''' then slugify label else slug) (s_hierarchy self)"

text \<open>\<^verbatim>\<open>self.pageblock_set.all()\<close>, in the order of \<^verbatim>\<open>PageBlock.Meta.ordering\<close>.\<close>

definition pageblock_set :: "db \<Rightarrow> Section \<Rightarrow> PageBlock list" where
  "pageblock_set d self =
     sort_key pb_ordinality (filter (\<lambda>p. pb_section p = s_id self) (pageblock_objects d))"

definition append_pageblock :: "db \<Rightarrow> Section \<Rightarrow> pyval \<Rightarrow> Block \<Rightarrow> db \<times> PageBlock" where
  "append_pageblock d self label content_object =
     (let neword = length (pageblock_set d self) + 1;
          p = \<lparr>pb_id = next_id (map pb_id (pageblock_objects d)), pb_section = s_id self,
               pb_ordinality = neword, pb_label = label, pb_css_extra = PyNone,
               pb_content_object = content_object\<rparr>
      in (d\<lparr>pageblock_objects := pageblock_objects d @ [p]\<rparr>, p))"

fun renumber_loop :: "db \<Rightarrow> nat \<Rightarrow> PageBlock list \<Rightarrow> db" where
  "renumber_loop d i [] = d"
| "renumber_loop d i (block # blocks) =
     renumber_loop (pageblock_save d (block\<lparr>pb_ordinality := i\<rparr>)) (i + 1) blocks"

definition renumber_pageblocks :: "db \<Rightarrow> Section \<Rightarrow> db" where
  "renumber_pageblocks d self = renumber_loop d 1 (pageblock_set d self)"

fun update_pageblocks_order_loop :: "db \<Rightarrow> (nat \<times> nat) list \<Rightarrow> db \<times> (error + unit)" where
  "update_pageblocks_order_loop d [] = (d, Inr ())"
| "update_pageblocks_order_loop d ((i, ident) # rest) =
     (case objects_get (\<lambda>p. pb_id p = ident) (pageblock_objects d) of
        Inl e \<Rightarrow> (d, Inl e)
      | Inr sc \<Rightarrow>
          update_pageblocks_order_loop (pageblock_save d (sc\<lparr>pb_ordinality := i + 1\<rparr>)) rest)"

definition update_pageblocks_order :: "db \<Rightarrow> Section \<Rightarrow> nat list \<Rightarrow> db \<times> (error + unit)" where
  "update_pageblocks_order d self pageblock_ids =
     update_pageblocks_order_loop d (enumerate 0 pageblock_ids)"

subsection \<open>Submitting a page\<close>

text \<open>
  The request payload is a \<^verbatim>\<open>QueryDict\<close>: every key has a list of values. It is given by
  its items; a key is listed once by \<^verbatim>\<open>keys()\<close>, \<^verbatim>\<open>getlist(k)\<close> is the list of values of
  \<open>k\<close> and \<^verbatim>\<open>request_data[k]\<close> the last of them.
\<close>

type_synonym querydict = "(string \<times> string list) list"

datatype form_value = Scalar string | Multi "string list"

definition keys :: "querydict \<Rightarrow> string list" where
  "keys request_data = remdups (map fst request_data)"

definition getlist :: "querydict \<Rightarrow> string \<Rightarrow> string list" where
  "getlist request_data k = (case map_of request_data k of None \<Rightarrow> [] | Some v \<Rightarrow> v)"

definition getitem :: "querydict \<Rightarrow> string \<Rightarrow> form_value" where
  "getitem request_data k =
     (case getlist request_data k of [] \<Rightarrow> Multi [] | v # vs \<Rightarrow> Scalar (last (v # vs)))"

text \<open>The inner loop of \<^verbatim>\<open>submit\<close>: the dictionary \<open>data\<close> built for one pageblock.\<close>

fun submit_data ::
  "querydict \<Rightarrow> string \<Rightarrow> string list \<Rightarrow> (string \<rightharpoonup> form_value) \<Rightarrow> (string \<rightharpoonup> form_value)" where
  "submit_data request_data prefix [] data = data"
| "submit_data request_data prefix (k # ks) data =
     (if startswith k prefix
      then (let v = getlist request_data k
            in if length v = 1
               then submit_data request_data prefix ks
                      (data(drop (length prefix) k \<mapsto> getitem request_data k))
               else submit_data request_data prefix ks
                      (data(drop (length prefix) k \<mapsto> Multi v)))
      else submit_data request_data prefix ks data)"

text \<open>
  What a content object does with a submission is its own business; the model keeps the
  calls \<^verbatim>\<open>p.block().submit(user, data)\<close> that the section makes, in order, each with the
  primary key of the pageblock. The answers of \<^verbatim>\<open>needs_submit()\<close> and
  \<^verbatim>\<open>redirect_to_self_on_submit()\<close> are those of the content object of the row.
\<close>

type_synonym submit_call = "nat \<times> user \<times> (string \<rightharpoonup> form_value)"

definition block :: "PageBlock \<Rightarrow> Block" where
  "block self = pb_content_object self"

fun submit_loop ::
  "querydict \<Rightarrow> user \<Rightarrow> PageBlock list \<Rightarrow> bool \<times> submit_call list \<Rightarrow> bool \<times> submit_call list" where
  "submit_loop request_data usr [] st = st"
| "submit_loop request_data usr (p # ps) (proceed, calls) =
     (case needs_submit (block p) of
        Some True \<Rightarrow>
          (let prefix = ''pageblock-'' @ str_of_nat (pb_id p) @ ''-'';
               data = submit_data request_data prefix (keys request_data) Map.empty;
               calls' = calls @ [(pb_id p, usr, data)]
           in case redirect_to_self_on_submit (block p) of
                Some r \<Rightarrow> submit_loop request_data usr ps (\<not> r, calls')
              | None \<Rightarrow> submit_loop request_data usr ps (proceed, calls'))
      | _ \<Rightarrow> submit_loop request_data usr ps (proceed, calls))"

definition submit :: "db \<Rightarrow> Section \<Rightarrow> querydict \<Rightarrow> user \<Rightarrow> bool \<times> submit_call list" where
  "submit d self request_data usr =
     submit_loop request_data usr (pageblock_set d self) (True, [])"

section \<open>PageBlock\<close>

text \<open>The foreign key \<^verbatim>\<open>self.section\<close>, read as an object.\<close>

definition pageblock_section :: "db \<Rightarrow> PageBlock \<Rightarrow> error + Section" where
  "pageblock_section d self = objects_get (\<lambda>s. s_id s = pb_section self) (section_objects d)"

definition delete :: "db \<Rightarrow> PageBlock \<Rightarrow> db \<times> (error + unit)" where
  "delete d self =
     (case pageblock_section d self of
        Inl e \<Rightarrow> (d, Inl e)
      | Inr sec \<Rightarrow>
          (let d' = d\<lparr>pageblock_objects :=
                       filter (\<lambda>p. pb_id p \<noteq> pb_id self) (pageblock_objects d)\<rparr>
           in (renumber_pageblocks d' sec, Inr ())))"

definition PageBlock_as_dict :: "PageBlock \<Rightarrow> block_dict" where
  "PageBlock_as_dict self =
     (let d = (case block_as_dict (pb_content_object self) of None \<Rightarrow> Map.empty | Some bd \<Rightarrow> bd)
      in d(''label'' \<mapsto> pb_label self,
           ''css_extra'' \<mapsto> pb_css_extra self,
           ''block_type'' \<mapsto> PyStr (display_name (pb_content_object self))))"

section \<open>Import and export as nested dictionaries\<close>

text \<open>
  The dictionary of a section has the keys \<^verbatim>\<open>label\<close>, \<^verbatim>\<open>slug\<close>, \<^verbatim>\<open>pageblocks\<close> and
  \<^verbatim>\<open>children\<close>. The import reads every one of them with \<^verbatim>\<open>d.get(key, default)\<close>, the
  default being the empty string or the empty list, so a missing key is written as its
  default here. The dictionary of a hierarchy keeps the difference, because the default of
  \<^verbatim>\<open>base_url\<close> is not the empty string.
\<close>

datatype section_dict =
  SectionDict (sd_label: string) (sd_slug: string) (sd_pageblocks: "block_dict list")
    (sd_children: "section_dict list")

record hierarchy_dict =
  hd_name :: "string option"
  hd_base_url :: "string option"
  hd_sections :: "section_dict list"

function Section_as_dict :: "db \<Rightarrow> Section \<Rightarrow> section_dict" where
  "Section_as_dict d self =
     SectionDict (s_label self) (s_slug self)
       (map PageBlock_as_dict (pageblock_set d self))
       (map (Section_as_dict d) (get_children d self))"
  by pat_completeness auto

lemma length_filter_less:
  "(\<And>x. x \<in> set xs \<Longrightarrow> Q x \<Longrightarrow> P x) \<Longrightarrow> y \<in> set xs \<Longrightarrow> P y \<Longrightarrow> \<not> Q y \<Longrightarrow>
   length (filter Q xs) < length (filter P xs)"
proof (induction xs)
  case Nil
  then show ?case by simp
next
  case (Cons x xs)
  have le: "length (filter Q xs) \<le> length (filter P xs)"
  proof -
    have "filter Q xs = filter Q (filter P xs)"
      using Cons.prems(1) by (auto intro: filter_cong)
    then show ?thesis
      by (metis length_filter_le)
  qed
  show ?case
  proof (cases "y = x")
    case True
    with Cons.prems le show ?thesis by simp
  next
    case False
    with Cons.prems have "y \<in> set xs" by simp
    with Cons have "length (filter Q xs) < length (filter P xs)" by simp
    with Cons.prems(1)[of x] show ?thesis by auto
  qed
qed

termination Section_as_dict
proof (relation "measure (\<lambda>(d, s). length (filter (\<lambda>r. get_depth s < get_depth r \<and>
                    take (get_depth s) (s_path r) = s_path s) (section_objects d)))")
  show "wf (measure (\<lambda>(d, s). length (filter (\<lambda>r. get_depth s < get_depth r \<and>
                    take (get_depth s) (s_path r) = s_path s) (section_objects d))))"
    by simp
next
  fix d :: db and self c :: Section
  assume "c \<in> set (get_children d self)"
  then have c: "c \<in> set (section_objects d)" "get_depth c = Suc (get_depth self)"
    "take (get_depth self) (s_path c) = s_path self"
    by (auto simp: get_children_def)
  have "length (filter (\<lambda>r. get_depth c < get_depth r \<and> take (get_depth c) (s_path r) = s_path c)
                  (section_objects d))
        < length (filter (\<lambda>r. get_depth self < get_depth r \<and>
                    take (get_depth self) (s_path r) = s_path self) (section_objects d))"
  proof (rule length_filter_less[where y = c])
    fix x
    assume "get_depth c < get_depth x \<and> take (get_depth c) (s_path x) = s_path c"
    then have "get_depth self < get_depth x" and t: "take (get_depth c) (s_path x) = s_path c"
      using c(2) by auto
    moreover have "take (get_depth self) (s_path x) = s_path self"
    proof -
      have "take (get_depth self) (take (get_depth c) (s_path x)) = take (get_depth self) (s_path x)"
        using c(2) by (simp add: min_def)
      with t c(3) show ?thesis by simp
    qed
    ultimately show "get_depth self < get_depth x \<and> take (get_depth self) (s_path x) = s_path self"
      by simp
  qed (use c in auto)
  then show "((d, c), (d, self)) \<in> measure (\<lambda>(d, s). length (filter (\<lambda>r. get_depth s < get_depth r \<and>
                    take (get_depth s) (s_path r) = s_path s) (section_objects d)))"
    by simp
qed

definition Hierarchy_as_dict :: "db \<Rightarrow> Hierarchy \<Rightarrow> db \<times> (error + hierarchy_dict)" where
  "Hierarchy_as_dict d self =
     (case Hierarchy_get_root d self of
        (d', Inl e) \<Rightarrow> (d', Inl e)
      | (d', Inr root) \<Rightarrow>
          (d', Inr \<lparr>hd_name = Some (h_name self), hd_base_url = Some (h_base_url self),
                    hd_sections = [Section_as_dict d' root]\<rparr>))"

text \<open>
  The pageblock classes of \<^verbatim>\<open>settings.PAGEBLOCKS\<close>, each with its \<^verbatim>\<open>display_name\<close> and,
  when the class has one, its \<^verbatim>\<open>create_from_dict\<close>. \<open>None\<close> is a settings module without the
  attribute.
\<close>

record pageblock_class =
  pc_display_name :: string
  create_from_dict :: "(block_dict \<Rightarrow> error + Block) option"

definition available_pageblocks :: "pageblock_class list option \<Rightarrow> pageblock_class list" where
  "available_pageblocks PAGEBLOCKS = (case PAGEBLOCKS of Some pbs \<Rightarrow> pbs | None \<Rightarrow> [])"

definition dict_get :: "block_dict \<Rightarrow> string \<Rightarrow> pyval \<Rightarrow> pyval" where
  "dict_get d k dflt = (case d k of None \<Rightarrow> dflt | Some v \<Rightarrow> v)"

text \<open>
  A call of \<^verbatim>\<open>append_pageblock\<close> by keyword. The method is declared as
  \<^verbatim>\<open>def append_pageblock(self, label, content_object)\<close>; a keyword that is none of its
  parameters makes the call raise \<^verbatim>\<open>TypeError\<close> before the body runs.
\<close>

definition append_pageblock_parameters :: "string list" where
  "append_pageblock_parameters = [''label'', ''content_object'']"

definition append_pageblock_by_keyword ::
  "db \<Rightarrow> Section \<Rightarrow> string list \<Rightarrow> pyval \<Rightarrow> Block \<Rightarrow> db \<times> (error + PageBlock)" where
  "append_pageblock_by_keyword d self keywords label content_object =
     (if list_all (\<lambda>k. k \<in> set append_pageblock_parameters) keywords
      then (case append_pageblock d self label content_object of (d', p) \<Rightarrow> (d', Inr p))
      else (d, Inl TypeError))"

fun add_pageblock_from_dict_loop ::
  "db \<Rightarrow> Section \<Rightarrow> block_dict \<Rightarrow> pyval \<Rightarrow> pageblock_class list \<Rightarrow> db \<times> (error + unit)" where
  "add_pageblock_from_dict_loop d self dict blocktype [] = (d, Inr ())"
| "add_pageblock_from_dict_loop d self dict blocktype (pb_class # rest) =
     (if PyStr (pc_display_name pb_class) = blocktype
      then (case create_from_dict pb_class of
              None \<Rightarrow> add_pageblock_from_dict_loop d self dict blocktype rest
            | Some create \<Rightarrow>
                (case create dict of
                   Inl e \<Rightarrow> (d, Inl e)
                 | Inr blk \<Rightarrow>
                     (case append_pageblock_by_keyword d self
                             [''label'', ''css_extra'', ''content_object'']
                             (dict_get dict ''label'' (PyStr '''')) blk of
                        (d', Inl e) \<Rightarrow> (d', Inl e)
                      | (d', Inr p) \<Rightarrow> add_pageblock_from_dict_loop d' self dict blocktype rest)))
      else add_pageblock_from_dict_loop d self dict blocktype rest)"

definition add_pageblock_from_dict ::
  "pageblock_class list option \<Rightarrow> db \<Rightarrow> Section \<Rightarrow> block_dict \<Rightarrow> db \<times> (error + unit)" where
  "add_pageblock_from_dict PAGEBLOCKS d self dict =
     add_pageblock_from_dict_loop d self dict (dict_get dict ''block_type'' (PyStr ''''))
       (available_pageblocks PAGEBLOCKS)"

fun add_pageblocks_from_dicts ::
  "pageblock_class list option \<Rightarrow> db \<Rightarrow> Section \<Rightarrow> block_dict list \<Rightarrow> db \<times> (error + unit)" where
  "add_pageblocks_from_dicts PAGEBLOCKS d s [] = (d, Inr ())"
| "add_pageblocks_from_dicts PAGEBLOCKS d s (pb # pbs) =
     (case add_pageblock_from_dict PAGEBLOCKS d s pb of
        (d', Inl e) \<Rightarrow> (d', Inl e)
      | (d', Inr u) \<Rightarrow> add_pageblocks_from_dicts PAGEBLOCKS d' s pbs)"

fun add_child_section_from_dict ::
  "(string \<Rightarrow> string) \<Rightarrow> pageblock_class list option \<Rightarrow> db \<Rightarrow> Section \<Rightarrow> section_dict
     \<Rightarrow> db \<times> (error + unit)"
and add_child_sections_from_dicts ::
  "(string \<Rightarrow> string) \<Rightarrow> pageblock_class list option \<Rightarrow> db \<Rightarrow> Section \<Rightarrow> section_dict list
     \<Rightarrow> db \<times> (error + unit)" where
  "add_child_section_from_dict slugify PAGEBLOCKS d self (SectionDict label slug pbs cs) =
     (case append_child slugify d self label slug of
        (d1, s) \<Rightarrow>
          (case add_pageblocks_from_dicts PAGEBLOCKS d1 s pbs of
             (d2, Inl e) \<Rightarrow> (d2, Inl e)
           | (d2, Inr u) \<Rightarrow> add_child_sections_from_dicts slugify PAGEBLOCKS d2 s cs))"
| "add_child_sections_from_dicts slugify PAGEBLOCKS d self [] = (d, Inr ())"
| "add_child_sections_from_dicts slugify PAGEBLOCKS d self (c # cs) =
     (case add_child_section_from_dict slugify PAGEBLOCKS d self c of
        (d', Inl e) \<Rightarrow> (d', Inl e)
      | (d', Inr u) \<Rightarrow> add_child_sections_from_dicts slugify PAGEBLOCKS d' self cs)"

definition add_section_from_dict ::
  "(string \<Rightarrow> string) \<Rightarrow> pageblock_class list option \<Rightarrow> db \<Rightarrow> Hierarchy \<Rightarrow> section_dict
     \<Rightarrow> db \<times> (error + Section)" where
  "add_section_from_dict slugify PAGEBLOCKS d self dict =
     (case add_root d ''Root'' '''' (h_id self) of
        (d1, s) \<Rightarrow>
          (case add_pageblocks_from_dicts PAGEBLOCKS d1 s (sd_pageblocks dict) of
             (d2, Inl e) \<Rightarrow> (d2, Inl e)
           | (d2, Inr u) \<Rightarrow>
               (case add_child_sections_from_dicts slugify PAGEBLOCKS d2 s (sd_children dict) of
                  (d3, Inl e) \<Rightarrow> (d3, Inl e)
                | (d3, Inr u) \<Rightarrow> (d3, Inr s))))"

fun add_sections_from_dicts ::
  "(string \<Rightarrow> string) \<Rightarrow> pageblock_class list option \<Rightarrow> db \<Rightarrow> Hierarchy \<Rightarrow> section_dict list
     \<Rightarrow> db \<times> (error + unit)" where
  "add_sections_from_dicts slugify PAGEBLOCKS d h [] = (d, Inr ())"
| "add_sections_from_dicts slugify PAGEBLOCKS d h (s # ss) =
     (case add_section_from_dict slugify PAGEBLOCKS d h s of
        (d', Inl e) \<Rightarrow> (d', Inl e)
      | (d', Inr r) \<Rightarrow> add_sections_from_dicts slugify PAGEBLOCKS d' h ss)"

definition from_dict ::
  "(string \<Rightarrow> string) \<Rightarrow> pageblock_class list option \<Rightarrow> db \<Rightarrow> hierarchy_dict
     \<Rightarrow> db \<times> (error + Hierarchy)" where
  "from_dict slugify PAGEBLOCKS d dict =
     (let h = \<lparr>h_id = next_id (map h_id (hierarchy_objects d)),
               h_name = (case hd_name dict of None \<Rightarrow> '''' | Some n \<Rightarrow> n),
               h_base_url = (case hd_base_url dict of None \<Rightarrow> ''/'' | Some b \<Rightarrow> b)\<rparr>;
          d1 = d\<lparr>hierarchy_objects := hierarchy_objects d @ [h]\<rparr>
      in case add_sections_from_dicts slugify PAGEBLOCKS d1 h (hd_sections dict) of
           (d', Inl e) \<Rightarrow> (d', Inl e)
         | (d', Inr u) \<Rightarrow> (d', Inr h))"

section \<open>Properties\<close>

subsection \<open>Primary keys and lookups\<close>

lemma fold_max_ge: "(a::nat) \<le> fold max ids a"
  by (induction ids arbitrary: a) (auto intro: order_trans[OF max.cobounded2])

lemma fold_max_mem: "x \<in> set ids \<Longrightarrow> (x::nat) \<le> fold max ids a"
proof (induction ids arbitrary: a)
  case Nil
  then show ?case by simp
next
  case (Cons y ys)
  show ?case
  proof (cases "x = y")
    case True
    have "x \<le> max y a" using True by simp
    also have "\<dots> \<le> fold max ys (max y a)" by (rule fold_max_ge)
    finally show ?thesis by simp
  next
    case False
    with Cons show ?thesis by simp
  qed
qed

lemma next_id_fresh: "next_id ids \<notin> set ids"
proof
  assume "next_id ids \<in> set ids"
  then have "next_id ids \<le> fold max ids 0" by (rule fold_max_mem)
  then show False by (simp add: next_id_def)
qed

lemma objects_get_Nil: "filter P rows = [] \<Longrightarrow> objects_get P rows = Inl DoesNotExist"
  by (simp add: objects_get_def)

subsection \<open>The location of a user\<close>

text \<open>
  C10: for the anonymous user \<^verbatim>\<open>get_user_location\<close> answers \<^verbatim>\<open>"/"\<close> and leaves the database
  as it is. For an authenticated user without a \<^verbatim>\<open>UserLocation\<close> row in the hierarchy it
  answers \<^verbatim>\<open>"/"\<close> too, and the database it leaves differs by one new row at the end of the
  \<^verbatim>\<open>UserLocation\<close> table, for this user and hierarchy, with the default path and a primary
  key no other row has.
\<close>

theorem get_user_location_frame:
  "get_user_location d self AnonymousUser = (d, Inr ''/'') \<and>
   (filter (\<lambda>r. ul_user r = u \<and> ul_hierarchy r = h_id self) (userlocation_objects d) = [] \<longrightarrow>
      get_user_location d self (User u) =
        (d\<lparr>userlocation_objects := userlocation_objects d @
              [\<lparr>ul_id = next_id (map ul_id (userlocation_objects d)), ul_user = u,
                ul_hierarchy = h_id self, ul_path = ''/''\<rparr>]\<rparr>, Inr ''/'') \<and>
      next_id (map ul_id (userlocation_objects d)) \<notin> set (map ul_id (userlocation_objects d)))"
  using next_id_fresh[of "map ul_id (userlocation_objects d)"]
  by (simp add: get_user_location_def userlocation_get_or_create_def objects_get_Nil Let_def)

theorem get_user_location_frame_witness:
  "filter (\<lambda>r. ul_user r = 7 \<and> ul_hierarchy r = h_id \<lparr>h_id = 1, h_name = ''main'', h_base_url = ''/''\<rparr>)
     (userlocation_objects empty_db) = [] \<and>
   get_user_location empty_db \<lparr>h_id = 1, h_name = ''main'', h_base_url = ''/''\<rparr> (User 7) =
     (empty_db\<lparr>userlocation_objects :=
        [\<lparr>ul_id = 1, ul_user = 7, ul_hierarchy = 1, ul_path = ''/''\<rparr>]\<rparr>, Inr ''/'')"
  using get_user_location_frame[of empty_db "\<lparr>h_id = 1, h_name = ''main'', h_base_url = ''/''\<rparr>" 7]
  by (simp add: empty_db_def next_id_def)

subsection \<open>Resolving a path\<close>





text \<open>A small site: one hierarchy, its root and one page below it.\<close>

definition example_hierarchy :: Hierarchy where
  "example_hierarchy = \<lparr>h_id = 1, h_name = ''main'', h_base_url = ''/''\<rparr>"

definition example_root :: Section where
  "example_root = \<lparr>s_id = 1, s_path = [1], s_label = ''Root'', s_slug = '''', s_hierarchy = 1\<rparr>"

definition example_intro :: Section where
  "example_intro = \<lparr>s_id = 2, s_path = [1, 1], s_label = ''Introduction'', s_slug = ''intro'', s_hierarchy = 1\<rparr>"

definition example_db :: db where
  "example_db = empty_db\<lparr>hierarchy_objects := [example_hierarchy], section_objects := [example_root, example_intro]\<rparr>"

lemmas example_defs = example_db_def example_hierarchy_def example_root_def example_intro_def empty_db_def

lemmas eval_defs = find_section_from_path_def get_section_from_path_def endswith_def Hierarchy_get_root_def
  Section_get_root_def objects_get_def add_root_def get_children_def get_depth_def Let_def next_id_def




text \<open>
  The lookup of the root is by label. After \<^verbatim>\<open>get_root()\<close> on a new hierarchy and
  \<^verbatim>\<open>append_child("Root")\<close> on its root, two sections of the hierarchy carry the label
  \<^verbatim>\<open>Root\<close>.
\<close>

definition example_second_root :: Section where
  "example_second_root = \<lparr>s_id = 2, s_path = [1, 1], s_label = ''Root'', s_slug = ''root'',
     s_hierarchy = 1\<rparr>"

definition example_dup_db :: db where
  "example_dup_db = empty_db\<lparr>hierarchy_objects := [example_hierarchy],
     section_objects := [example_root, example_second_root]\<rparr>"

lemmas dup_defs = example_dup_db_def example_second_root_def example_defs

lemma example_dup_db_reached:
  "Hierarchy_get_root (empty_db\<lparr>hierarchy_objects := [example_hierarchy]\<rparr>) example_hierarchy =
     (empty_db\<lparr>hierarchy_objects := [example_hierarchy], section_objects := [example_root]\<rparr>,
      Inr example_root) \<and>
   append_child (\<lambda>label. ''root'')
     (empty_db\<lparr>hierarchy_objects := [example_hierarchy], section_objects := [example_root]\<rparr>)
     example_root ''Root'' '''' = (example_dup_db, example_second_root)"
  by (simp add: eval_defs append_child_def add_child_def is_leaf_def dup_defs)





subsection \<open>Submitting a page\<close>

declare str_of_nat.simps [simp del]

text \<open>
  What the specification says a pageblock receives: the entries of the request whose key is
  the prefix followed by a field name, under the field name; one value as a scalar, any
  other number of values as the list.
\<close>

definition entries_with_prefix :: "querydict \<Rightarrow> string \<Rightarrow> (string \<rightharpoonup> form_value)" where
  "entries_with_prefix request_data prefix =
     (\<lambda>field. case map_of request_data (prefix @ field) of
                 None \<Rightarrow> None
               | Some [v] \<Rightarrow> Some (Scalar v)
               | Some vs \<Rightarrow> Some (Multi vs))"

text \<open>The answers of \<^verbatim>\<open>redirect_to_self_on_submit()\<close> that \<^verbatim>\<open>submit\<close> asks for, in the order
  of the pageblocks.\<close>

definition redirect_answers :: "PageBlock list \<Rightarrow> bool list" where
  "redirect_answers ps =
     concat (map (\<lambda>p. case redirect_to_self_on_submit (block p) of None \<Rightarrow> [] | Some r \<Rightarrow> [r])
               (filter (\<lambda>p. needs_submit (block p) = Some True) ps))"

lemma startswith_iff: "startswith k p \<longleftrightarrow> k = p @ drop (length p) k"
  unfolding startswith_def by (metis append_take_drop_id append_eq_conv_conj)

lemma submit_data_apply:
  "submit_data rd prefix ks data field =
     (if prefix @ field \<in> set ks
      then Some (if length (getlist rd (prefix @ field)) = 1 then getitem rd (prefix @ field)
                 else Multi (getlist rd (prefix @ field)))
      else data field)"
proof (induction ks arbitrary: data)
  case Nil
  then show ?case by simp
next
  case (Cons k ks)
  show ?case
  proof (cases "startswith k prefix")
    case True
    then have k: "k = prefix @ drop (length prefix) k" by (simp add: startswith_iff)
    have eq: "drop (length prefix) k = field \<longleftrightarrow> k = prefix @ field"
      using k by (metis append_eq_conv_conj)
    show ?thesis
      using True Cons.IH eq by (auto simp: Let_def)
  next
    case False
    then have "k \<noteq> prefix @ field" by (auto simp: startswith_def)
    with False Cons.IH show ?thesis by simp
  qed
qed

lemma submit_data_keys:
  "submit_data rd prefix (keys rd) Map.empty = entries_with_prefix rd prefix"
proof
  fix field
  show "submit_data rd prefix (keys rd) Map.empty field = entries_with_prefix rd prefix field"
  proof (cases "map_of rd (prefix @ field)")
    case None
    then have "prefix @ field \<notin> set (keys rd)"
      by (simp add: keys_def map_of_eq_None_iff)
    with None show ?thesis
      by (simp add: submit_data_apply entries_with_prefix_def)
  next
    case (Some vs)
    then have "prefix @ field \<in> set (keys rd)"
      by (metis keys_def map_of_eq_None_iff option.distinct(1) set_map set_remdups)
    with Some show ?thesis
      by (auto simp: submit_data_apply entries_with_prefix_def getlist_def getitem_def
          split: list.splits)
  qed
qed

lemma submit_loop_calls:
  "snd (submit_loop rd usr ps (proceed, calls)) =
     calls @ map (\<lambda>p. (pb_id p, usr,
                       entries_with_prefix rd (''pageblock-'' @ str_of_nat (pb_id p) @ ''-'')))
               (filter (\<lambda>p. needs_submit (block p) = Some True) ps)"
proof (induction ps arbitrary: proceed calls)
  case Nil
  then show ?case by simp
next
  case (Cons p ps)
  then show ?case
    by (auto simp: Let_def submit_data_keys split: option.splits bool.splits)
qed

text \<open>
  C4: the calls of \<^verbatim>\<open>p.block().submit(user, data)\<close> that \<^verbatim>\<open>Section.submit\<close> makes are, in the
  order of the section's pageblocks, one call for every pageblock whose \<^verbatim>\<open>needs_submit()\<close> is
  true and none for any other pageblock (it has no \<^verbatim>\<open>needs_submit\<close>, or the answer is
  false). The data of the call for \<open>p\<close> are exactly the request entries whose key starts with
  \<^verbatim>\<open>pageblock-<p.id>-\<close>, under the key without the prefix, a single value as a scalar and
  several values as a list.
\<close>

theorem submit_dispatch:
  "snd (submit d self request_data usr) =
     map (\<lambda>p. (pb_id p, usr,
               entries_with_prefix request_data (''pageblock-'' @ str_of_nat (pb_id p) @ ''-'')))
       (filter (\<lambda>p. needs_submit (block p) = Some True) (pageblock_set d self))"
  by (simp add: submit_def submit_loop_calls)

text \<open>The result of \<^verbatim>\<open>submit\<close> is decided by the last answer alone.\<close>

lemma redirect_answers_Cons:
  "redirect_answers (p # ps) =
     (if needs_submit (block p) = Some True
      then (case redirect_to_self_on_submit (block p) of None \<Rightarrow> [] | Some r \<Rightarrow> [r])
      else []) @ redirect_answers ps"
  by (simp add: redirect_answers_def)

lemma submit_loop_proceed:
  "fst (submit_loop rd usr ps (proceed, calls)) =
     (if redirect_answers ps = [] then proceed else \<not> last (redirect_answers ps))"
proof (induction ps arbitrary: proceed calls)
  case Nil
  then show ?case by (simp add: redirect_answers_def)
next
  case (Cons p ps)
  show ?case
  proof (cases "needs_submit (block p) = Some True")
    case True
    then show ?thesis
      by (cases "redirect_to_self_on_submit (block p)")
         (simp_all add: Let_def redirect_answers_Cons Cons.IH)
  next
    case False
    then show ?thesis
      by (simp add: redirect_answers_Cons Cons.IH split: option.splits bool.splits)
  qed
qed

lemma submit_proceed:
  "fst (submit d self request_data usr) =
     (if redirect_answers (pageblock_set d self) = [] then True
      else \<not> last (redirect_answers (pageblock_set d self)))"
  by (simp add: submit_def submit_loop_proceed)

text \<open>Two quizzes on the page of the small site: the first asks to stay on the page, the
  second does not.\<close>

definition quiz :: "bool \<Rightarrow> Block" where
  "quiz redirect = \<lparr>display_name = ''Quiz'', needs_submit = Some True,
     redirect_to_self_on_submit = Some redirect, block_as_dict = None\<rparr>"

definition example_quiz1 :: PageBlock where
  "example_quiz1 = \<lparr>pb_id = 1, pb_section = 2, pb_ordinality = 1, pb_label = PyStr ''first'',
     pb_css_extra = PyNone, pb_content_object = quiz True\<rparr>"

definition example_quiz2 :: PageBlock where
  "example_quiz2 = \<lparr>pb_id = 2, pb_section = 2, pb_ordinality = 2, pb_label = PyStr ''second'',
     pb_css_extra = PyNone, pb_content_object = quiz False\<rparr>"

definition example_quiz_db :: db where
  "example_quiz_db = example_db\<lparr>pageblock_objects := [example_quiz1, example_quiz2]\<rparr>"

text \<open>
  C1: \<^verbatim>\<open>submit\<close> should return \<^verbatim>\<open>False\<close> when a pageblock that needs a submission asks to stay
  on the page. Here the first pageblock of the page does, and \<^verbatim>\<open>submit\<close> returns \<^verbatim>\<open>True\<close>:
  the second pageblock overwrites \<^verbatim>\<open>proceed\<close>.
\<close>

theorem submit_ignores_earlier_redirect:
  "pageblock_set example_quiz_db example_intro = [example_quiz1, example_quiz2] \<and>
   needs_submit (block example_quiz1) = Some True \<and>
   redirect_to_self_on_submit (block example_quiz1) = Some True \<and>
   fst (submit example_quiz_db example_intro [] (User 7)) = True"
  by (simp add: submit_def pageblock_set_def example_quiz_db_def example_quiz1_def
      example_quiz2_def quiz_def block_def example_defs Let_def keys_def)

subsection \<open>Per-user state\<close>

text \<open>
  The state kept per user is well formed when primary keys are unique and there is at most
  one \<^verbatim>\<open>UserLocation\<close> row per user and hierarchy and at most one \<^verbatim>\<open>UserPageVisit\<close> row per
  user and section. No row is deleted between two databases when every primary key of the
  first is still one of the second.
\<close>

definition per_user_state_ok :: "db \<Rightarrow> bool" where
  "per_user_state_ok d =
     (distinct (map ul_id (userlocation_objects d)) \<and>
      distinct (map (\<lambda>r. (ul_user r, ul_hierarchy r)) (userlocation_objects d)) \<and>
      distinct (map upv_id (userpagevisit_objects d)) \<and>
      distinct (map (\<lambda>r. (upv_user r, upv_section r)) (userpagevisit_objects d)))"

definition rows_kept :: "db \<Rightarrow> db \<Rightarrow> bool" where
  "rows_kept d d' =
     (set (map ul_id (userlocation_objects d)) \<subseteq> set (map ul_id (userlocation_objects d')) \<and>
      set (map upv_id (userpagevisit_objects d)) \<subseteq> set (map upv_id (userpagevisit_objects d')))"

lemma distinct_filter_key:
  "distinct (map f xs) \<Longrightarrow> filter (\<lambda>r. f r = k) xs = [] \<or> (\<exists>r. filter (\<lambda>r. f r = k) xs = [r])"
proof (induction xs)
  case Nil
  then show ?case by simp
next
  case (Cons x xs)
  show ?case
  proof (cases "f x = k")
    case True
    with Cons.prems have "k \<notin> f ` set xs" by auto
    then have "filter (\<lambda>r. f r = k) xs = []"
      unfolding filter_empty_conv by blast
    with True show ?thesis by simp
  next
    case False
    with Cons show ?thesis by simp
  qed
qed

lemma filter_singletonD: "filter P xs = [x] \<Longrightarrow> x \<in> set xs \<and> P x"
proof -
  assume "filter P xs = [x]"
  then have "x \<in> set (filter P xs)" by simp
  then show ?thesis by simp
qed

lemma objects_get_distinct_key:
  assumes "distinct (map f xs)" "\<And>r. P r = (f r = k)"
  shows "(objects_get P xs = Inl DoesNotExist \<and> filter P xs = []) \<or>
         (\<exists>r. objects_get P xs = Inr r \<and> filter P xs = [r])"
proof -
  have "P = (\<lambda>r. f r = k)" using assms(2) by auto
  then show ?thesis
    using distinct_filter_key[OF assms(1), of k] by (auto simp: objects_get_def)
qed

lemma map_replace_same_key:
  assumes "distinct (map i xs)" "x \<in> set xs" "i y = i x" "f y = f x"
  shows "map f (map (\<lambda>r. if i r = i x then y else r) xs) = map f xs"
proof -
  have "\<And>r. r \<in> set xs \<Longrightarrow> i r = i x \<Longrightarrow> r = x"
    using assms(1,2) by (meson distinct_map inj_onD)
  then show ?thesis using assms(4) by (auto simp: comp_def)
qed

lemma filter_map_replace:
  "(\<And>r. r \<in> set xs \<Longrightarrow> i r = k \<Longrightarrow> P r = P y) \<Longrightarrow>
   filter P (map (\<lambda>r. if i r = k then y else r) xs) =
   map (\<lambda>r. if i r = k then y else r) (filter P xs)"
  by (induction xs) auto

lemma filter_replace_key:
  assumes "distinct (map i xs)" "filter P xs = [x]" "i y = i x" "P y" 
  shows "filter P (map (\<lambda>r. if i r = i x then y else r) xs) = [y]"
proof -
  have x: "x \<in> set xs" "P x"
    using filter_singletonD[OF assms(2)] by simp_all
  have uniq: "\<And>r. r \<in> set xs \<Longrightarrow> i r = i x \<Longrightarrow> r = x"
    using assms(1) x(1) by (meson distinct_map inj_onD)
  have "\<And>r. r \<in> set xs \<Longrightarrow> i r = i x \<Longrightarrow> P r = P y"
    using uniq x(2) assms(4) by blast
  then have "filter P (map (\<lambda>r. if i r = i x then y else r) xs) =
        map (\<lambda>r. if i r = i x then y else r) (filter P xs)"
    by (rule filter_map_replace)
  then show ?thesis using assms(2) by simp
qed

lemma userlocation_get_or_create_ok:
  assumes "per_user_state_ok d"
  shows "\<exists>d' ul created. userlocation_get_or_create d u h = (d', Inr (ul, created)) \<and>
           per_user_state_ok d' \<and> rows_kept d d' \<and>
           filter (\<lambda>r. ul_user r = u \<and> ul_hierarchy r = h) (userlocation_objects d') = [ul] \<and>
           userpagevisit_objects d' = userpagevisit_objects d"
proof -
  let ?f = "\<lambda>r. (ul_user r, ul_hierarchy r)"
  let ?P = "\<lambda>r. ul_user r = u \<and> ul_hierarchy r = h"
  from assms have dk: "distinct (map ?f (userlocation_objects d))"
    by (simp add: per_user_state_ok_def)
  have "(objects_get ?P (userlocation_objects d) = Inl DoesNotExist \<and>
           filter ?P (userlocation_objects d) = []) \<or>
        (\<exists>r. objects_get ?P (userlocation_objects d) = Inr r \<and>
           filter ?P (userlocation_objects d) = [r])"
    by (rule objects_get_distinct_key[OF dk, of _ "(u, h)"]) auto
  then show ?thesis
  proof (elim disjE conjE exE)
    assume a: "objects_get ?P (userlocation_objects d) = Inl DoesNotExist"
      "filter ?P (userlocation_objects d) = []"
    let ?ul = "\<lparr>ul_id = next_id (map ul_id (userlocation_objects d)), ul_user = u,
                ul_hierarchy = h, ul_path = ''/''\<rparr>"
    let ?d = "d\<lparr>userlocation_objects := userlocation_objects d @ [?ul]\<rparr>"
    from a(2) have nk: "(u, h) \<notin> set (map ?f (userlocation_objects d))"
      unfolding filter_empty_conv by auto
    have r: "userlocation_get_or_create d u h = (?d, Inr (?ul, True))"
      using a(1) by (simp add: userlocation_get_or_create_def Let_def)
    have ok: "per_user_state_ok ?d"
      using assms nk next_id_fresh[of "map ul_id (userlocation_objects d)"]
      by (simp add: per_user_state_ok_def)
    have kept: "rows_kept d ?d"
      by (auto simp: rows_kept_def)
    have f: "filter ?P (userlocation_objects ?d) = [?ul]"
      using a(2) by simp
    show ?thesis
      using r ok kept f by auto
  next
    fix r
    assume a: "objects_get ?P (userlocation_objects d) = Inr r"
      "filter ?P (userlocation_objects d) = [r]"
    with assms show ?thesis
      by (auto simp: userlocation_get_or_create_def rows_kept_def)
  qed
qed

lemma userlocation_save_ok:
  assumes "per_user_state_ok d"
    "filter (\<lambda>r. ul_user r = u \<and> ul_hierarchy r = h) (userlocation_objects d) = [ul]"
  shows "per_user_state_ok (userlocation_save d (ul\<lparr>ul_path := p\<rparr>)) \<and>
         rows_kept d (userlocation_save d (ul\<lparr>ul_path := p\<rparr>)) \<and>
         filter (\<lambda>r. ul_user r = u \<and> ul_hierarchy r = h)
           (userlocation_objects (userlocation_save d (ul\<lparr>ul_path := p\<rparr>))) = [ul\<lparr>ul_path := p\<rparr>]"
proof -
  let ?y = "ul\<lparr>ul_path := p\<rparr>"
  have mem: "ul \<in> set (userlocation_objects d)" and key: "ul_user ul = u" "ul_hierarchy ul = h"
    using filter_singletonD[OF assms(2)] by simp_all
  have di: "distinct (map ul_id (userlocation_objects d))"
    using assms(1) by (simp add: per_user_state_ok_def)
  have sv: "userlocation_objects (userlocation_save d ?y) =
            map (\<lambda>r. if ul_id r = ul_id ul then ?y else r) (userlocation_objects d)"
    "userpagevisit_objects (userlocation_save d ?y) = userpagevisit_objects d"
    using mem by (auto simp: userlocation_save_def)
  have m1: "map ul_id (userlocation_objects (userlocation_save d ?y)) = map ul_id (userlocation_objects d)"
    unfolding sv by (rule map_replace_same_key[OF di mem]) simp_all
  have m2: "map (\<lambda>r. (ul_user r, ul_hierarchy r)) (userlocation_objects (userlocation_save d ?y))
            = map (\<lambda>r. (ul_user r, ul_hierarchy r)) (userlocation_objects d)"
    unfolding sv by (rule map_replace_same_key[OF di mem]) simp_all
  have f: "filter (\<lambda>r. ul_user r = u \<and> ul_hierarchy r = h)
             (userlocation_objects (userlocation_save d ?y)) = [?y]"
    unfolding sv by (rule filter_replace_key[OF di assms(2)]) (use key in simp_all)
  show ?thesis
    using assms(1) m1 m2 f sv(2) by (simp add: per_user_state_ok_def rows_kept_def)
qed

lemma userpagevisit_get_or_create_ok:
  assumes "per_user_state_ok d"
  shows "\<exists>d' upv created. userpagevisit_get_or_create d now s u = (d', Inr (upv, created)) \<and>
           per_user_state_ok d' \<and> rows_kept d d' \<and>
           filter (\<lambda>r. upv_section r = s \<and> upv_user r = u) (userpagevisit_objects d') = [upv]"
proof -
  let ?f = "\<lambda>r. (upv_user r, upv_section r)"
  let ?P = "\<lambda>r. upv_section r = s \<and> upv_user r = u"
  from assms have dk: "distinct (map ?f (userpagevisit_objects d))"
    by (simp add: per_user_state_ok_def)
  have "(objects_get ?P (userpagevisit_objects d) = Inl DoesNotExist \<and>
           filter ?P (userpagevisit_objects d) = []) \<or>
        (\<exists>r. objects_get ?P (userpagevisit_objects d) = Inr r \<and>
           filter ?P (userpagevisit_objects d) = [r])"
    by (rule objects_get_distinct_key[OF dk, of _ "(u, s)"]) auto
  then show ?thesis
  proof (elim disjE conjE exE)
    assume a: "objects_get ?P (userpagevisit_objects d) = Inl DoesNotExist"
      "filter ?P (userpagevisit_objects d) = []"
    let ?upv = "\<lparr>upv_id = next_id (map upv_id (userpagevisit_objects d)), upv_user = u,
                 upv_section = s, upv_status = ''incomplete'', upv_first_visit = now,
                 upv_last_visit = now\<rparr>"
    let ?d = "d\<lparr>userpagevisit_objects := userpagevisit_objects d @ [?upv]\<rparr>"
    from a(2) have nk: "(u, s) \<notin> set (map ?f (userpagevisit_objects d))"
      unfolding filter_empty_conv by auto
    have r: "userpagevisit_get_or_create d now s u = (?d, Inr (?upv, True))"
      using a(1) by (simp add: userpagevisit_get_or_create_def Let_def)
    have ok: "per_user_state_ok ?d"
      using assms nk next_id_fresh[of "map upv_id (userpagevisit_objects d)"]
      by (simp add: per_user_state_ok_def)
    have kept: "rows_kept d ?d"
      by (auto simp: rows_kept_def)
    have f: "filter ?P (userpagevisit_objects ?d) = [?upv]"
      using a(2) by simp
    show ?thesis
      using r ok kept f by auto
  next
    fix r
    assume a: "objects_get ?P (userpagevisit_objects d) = Inr r"
      "filter ?P (userpagevisit_objects d) = [r]"
    with assms show ?thesis
      by (auto simp: userpagevisit_get_or_create_def rows_kept_def)
  qed
qed

lemma userpagevisit_save_ok:
  assumes "per_user_state_ok d"
    "filter (\<lambda>r. upv_section r = s \<and> upv_user r = u) (userpagevisit_objects d) = [upv]"
  shows "per_user_state_ok (userpagevisit_save d now (upv\<lparr>upv_status := st\<rparr>)) \<and>
         rows_kept d (userpagevisit_save d now (upv\<lparr>upv_status := st\<rparr>)) \<and>
         filter (\<lambda>r. upv_section r = s \<and> upv_user r = u)
           (userpagevisit_objects (userpagevisit_save d now (upv\<lparr>upv_status := st\<rparr>))) =
           [upv\<lparr>upv_status := st, upv_last_visit := now\<rparr>]"
proof -
  let ?x = "upv\<lparr>upv_status := st\<rparr>"
  let ?y = "upv\<lparr>upv_status := st, upv_last_visit := now\<rparr>"
  have mem: "upv \<in> set (userpagevisit_objects d)" and key: "upv_section upv = s" "upv_user upv = u"
    using filter_singletonD[OF assms(2)] by simp_all
  have di: "distinct (map upv_id (userpagevisit_objects d))"
    using assms(1) by (simp add: per_user_state_ok_def)
  have sv: "userpagevisit_objects (userpagevisit_save d now ?x) =
            map (\<lambda>r. if upv_id r = upv_id upv then ?y else r) (userpagevisit_objects d)"
    "userlocation_objects (userpagevisit_save d now ?x) = userlocation_objects d"
    using mem by (auto simp: userpagevisit_save_def Let_def)
  have m1: "map upv_id (userpagevisit_objects (userpagevisit_save d now ?x)) =
            map upv_id (userpagevisit_objects d)"
    unfolding sv by (rule map_replace_same_key[OF di mem]) simp_all
  have m2: "map (\<lambda>r. (upv_user r, upv_section r)) (userpagevisit_objects (userpagevisit_save d now ?x))
            = map (\<lambda>r. (upv_user r, upv_section r)) (userpagevisit_objects d)"
    unfolding sv by (rule map_replace_same_key[OF di mem]) simp_all
  have f: "filter (\<lambda>r. upv_section r = s \<and> upv_user r = u)
             (userpagevisit_objects (userpagevisit_save d now ?x)) = [?y]"
    unfolding sv by (rule filter_replace_key[OF di assms(2)]) (use key in simp_all)
  show ?thesis
    using assms(1) m1 m2 f sv(2) by (simp add: per_user_state_ok_def rows_kept_def)
qed

lemma rows_kept_refl: "rows_kept d d"
  by (simp add: rows_kept_def)

lemma rows_kept_trans: "rows_kept d d1 \<Longrightarrow> rows_kept d1 d2 \<Longrightarrow> rows_kept d d2"
  unfolding rows_kept_def by (meson subset_trans)

lemma get_user_location_upsert:
  assumes "per_user_state_ok d"
  shows "per_user_state_ok (fst (get_user_location d self usr)) \<and>
         rows_kept d (fst (get_user_location d self usr)) \<and>
         (\<forall>u. usr = User u \<longrightarrow>
            (\<exists>ul. filter (\<lambda>r. ul_user r = u \<and> ul_hierarchy r = h_id self)
                     (userlocation_objects (fst (get_user_location d self usr))) = [ul] \<and>
                  snd (get_user_location d self usr) = Inr (ul_path ul)))"
proof (cases usr)
  case AnonymousUser
  with assms show ?thesis by (simp add: get_user_location_def rows_kept_refl)
next
  case (User u)
  from userlocation_get_or_create_ok[OF assms, of u "h_id self"]
  obtain d' ul created where
    "userlocation_get_or_create d u (h_id self) = (d', Inr (ul, created))"
    "per_user_state_ok d'" "rows_kept d d'"
    "filter (\<lambda>r. ul_user r = u \<and> ul_hierarchy r = h_id self) (userlocation_objects d') = [ul]"
    by blast
  with User show ?thesis by (simp add: get_user_location_def)
qed

lemma Hierarchy_user_visit_upsert:
  assumes "per_user_state_ok d"
  shows "per_user_state_ok (fst (Hierarchy_user_visit d self usr sec)) \<and>
         rows_kept d (fst (Hierarchy_user_visit d self usr sec)) \<and>
         (\<forall>u path. usr = User u \<and> Section_get_absolute_url d sec = Inr path \<longrightarrow>
            snd (Hierarchy_user_visit d self usr sec) = Inr () \<and>
            (\<exists>ul. filter (\<lambda>r. ul_user r = u \<and> ul_hierarchy r = h_id self)
                     (userlocation_objects (fst (Hierarchy_user_visit d self usr sec))) = [ul] \<and>
                  ul_path ul = path))"
proof (cases "Section_get_absolute_url d sec")
  case (Inl e)
  with assms show ?thesis by (simp add: Hierarchy_user_visit_def rows_kept_refl)
next
  case (Inr path)
  show ?thesis
  proof (cases usr)
    case AnonymousUser
    with Inr assms show ?thesis by (simp add: Hierarchy_user_visit_def rows_kept_refl)
  next
    case (User u)
    from userlocation_get_or_create_ok[OF assms, of u "h_id self"]
    obtain d' ul created where g:
      "userlocation_get_or_create d u (h_id self) = (d', Inr (ul, created))"
      "per_user_state_ok d'" "rows_kept d d'"
      "filter (\<lambda>r. ul_user r = u \<and> ul_hierarchy r = h_id self) (userlocation_objects d') = [ul]"
      by blast
    have r: "Hierarchy_user_visit d self usr sec = (userlocation_save d' (ul\<lparr>ul_path := path\<rparr>), Inr ())"
      using Inr User g(1) by (simp add: Hierarchy_user_visit_def)
    from userlocation_save_ok[OF g(2) g(4), of path] g(3) show ?thesis
      unfolding r using Inr User by (auto intro: rows_kept_trans)
  qed
qed

lemma user_pagevisit_upsert:
  assumes "per_user_state_ok d"
  shows "per_user_state_ok (fst (user_pagevisit d now sec usr status)) \<and>
         rows_kept d (fst (user_pagevisit d now sec usr status)) \<and>
         (\<forall>u. usr = User u \<longrightarrow>
            snd (user_pagevisit d now sec usr status) = Inr () \<and>
            (\<exists>upv. filter (\<lambda>r. upv_section r = s_id sec \<and> upv_user r = u)
                     (userpagevisit_objects (fst (user_pagevisit d now sec usr status))) = [upv] \<and>
                  upv_status upv = status \<and> upv_last_visit upv = now))"
proof (cases usr)
  case AnonymousUser
  with assms show ?thesis by (simp add: user_pagevisit_def rows_kept_refl)
next
  case (User u)
  from userpagevisit_get_or_create_ok[OF assms, of now "s_id sec" u]
  obtain d' upv created where g:
    "userpagevisit_get_or_create d now (s_id sec) u = (d', Inr (upv, created))"
    "per_user_state_ok d'" "rows_kept d d'"
    "filter (\<lambda>r. upv_section r = s_id sec \<and> upv_user r = u) (userpagevisit_objects d') = [upv]"
    by blast
  have r: "user_pagevisit d now sec usr status =
             (userpagevisit_save d' now (upv\<lparr>upv_status := status\<rparr>), Inr ())"
    using User g(1) by (simp add: user_pagevisit_def)
  from userpagevisit_save_ok[OF g(2) g(4), of now status] g(3) show ?thesis
    unfolding r using User by (auto intro: rows_kept_trans)
qed

text \<open>
  C7: \<^verbatim>\<open>get_user_location\<close>, \<^verbatim>\<open>Hierarchy.user_visit\<close> and \<^verbatim>\<open>Section.user_pagevisit\<close>, run on a
  well-formed state, leave a well-formed state (at most one row per user and hierarchy, at
  most one per user and section) and delete no row, whatever they return. For an
  authenticated user they upsert: afterwards the user has exactly one row for the hierarchy
  (the section), and it holds the path returned, the URL of the section visited, or the
  status and the time of the visit.
\<close>

theorem per_user_state_upsert:
  assumes "per_user_state_ok d"
  shows "(per_user_state_ok (fst (get_user_location d self usr)) \<and>
          rows_kept d (fst (get_user_location d self usr)) \<and>
          (\<forall>u. usr = User u \<longrightarrow>
             (\<exists>ul. filter (\<lambda>r. ul_user r = u \<and> ul_hierarchy r = h_id self)
                      (userlocation_objects (fst (get_user_location d self usr))) = [ul] \<and>
                   snd (get_user_location d self usr) = Inr (ul_path ul)))) \<and>
         (per_user_state_ok (fst (Hierarchy_user_visit d self usr sec)) \<and>
          rows_kept d (fst (Hierarchy_user_visit d self usr sec)) \<and>
          (\<forall>u path. usr = User u \<and> Section_get_absolute_url d sec = Inr path \<longrightarrow>
             snd (Hierarchy_user_visit d self usr sec) = Inr () \<and>
             (\<exists>ul. filter (\<lambda>r. ul_user r = u \<and> ul_hierarchy r = h_id self)
                      (userlocation_objects (fst (Hierarchy_user_visit d self usr sec))) = [ul] \<and>
                   ul_path ul = path))) \<and>
         (per_user_state_ok (fst (user_pagevisit d now sec usr status)) \<and>
          rows_kept d (fst (user_pagevisit d now sec usr status)) \<and>
          (\<forall>u. usr = User u \<longrightarrow>
             snd (user_pagevisit d now sec usr status) = Inr () \<and>
             (\<exists>upv. filter (\<lambda>r. upv_section r = s_id sec \<and> upv_user r = u)
                      (userpagevisit_objects (fst (user_pagevisit d now sec usr status))) = [upv] \<and>
                   upv_status upv = status \<and> upv_last_visit upv = now)))"
  by (rule conjI[OF get_user_location_upsert[OF assms]
        conjI[OF Hierarchy_user_visit_upsert[OF assms] user_pagevisit_upsert[OF assms]]])

lemma example_intro_url: "Section_get_absolute_url example_db example_intro = Inr ''/intro/''"
  by (simp add: Section_get_absolute_url.simps[of example_db example_intro]
      Section_get_absolute_url.simps[of example_db example_root]
      is_root_def get_depth_def get_parent_def objects_get_def section_hierarchy_def
      Hierarchy_get_absolute_url_def example_defs)

lemma example_db_ok: "per_user_state_ok example_db"
  by (simp add: per_user_state_ok_def example_defs)

theorem per_user_state_upsert_witness:
  "per_user_state_ok example_db \<and>
   Section_get_absolute_url example_db example_intro = Inr ''/intro/'' \<and>
   per_user_state_ok (fst (Hierarchy_user_visit example_db example_hierarchy (User 7) example_intro)) \<and>
   Hierarchy_user_visit example_db example_hierarchy (User 7) example_intro =
     (example_db\<lparr>userlocation_objects :=
        [\<lparr>ul_id = 1, ul_user = 7, ul_hierarchy = 1, ul_path = ''/intro/''\<rparr>]\<rparr>, Inr ()) \<and>
   per_user_state_ok (fst (user_pagevisit example_db 100 example_intro (User 7) ''complete'')) \<and>
   user_pagevisit example_db 100 example_intro (User 7) ''complete'' =
     (example_db\<lparr>userpagevisit_objects :=
        [\<lparr>upv_id = 1, upv_user = 7, upv_section = 2, upv_status = ''complete'',
          upv_first_visit = 100, upv_last_visit = 100\<rparr>]\<rparr>, Inr ())"
proof -
  have v: "Hierarchy_user_visit example_db example_hierarchy (User 7) example_intro =
     (example_db\<lparr>userlocation_objects :=
        [\<lparr>ul_id = 1, ul_user = 7, ul_hierarchy = 1, ul_path = ''/intro/''\<rparr>]\<rparr>, Inr ())"
    unfolding Hierarchy_user_visit_def example_intro_url
    by (simp add: userlocation_get_or_create_def objects_get_def userlocation_save_def
        next_id_def Let_def example_defs)
  have p: "user_pagevisit example_db 100 example_intro (User 7) ''complete'' =
     (example_db\<lparr>userpagevisit_objects :=
        [\<lparr>upv_id = 1, upv_user = 7, upv_section = 2, upv_status = ''complete'',
          upv_first_visit = 100, upv_last_visit = 100\<rparr>]\<rparr>, Inr ())"
    by (simp add: user_pagevisit_def userpagevisit_get_or_create_def
        objects_get_def userpagevisit_save_def next_id_def Let_def example_defs)
  show ?thesis
    using per_user_state_upsert[OF example_db_ok, of example_hierarchy "User 7" example_intro 100
        "''complete''"] example_db_ok example_intro_url v p
    by simp
qed

subsection \<open>The order of the pageblocks of a section\<close>

text \<open>
  The ordinalities of the pageblocks of a section are contiguous when, read in the order of
  the section's pageblocks, they are \<open>1, \<dots>, N\<close> for the \<open>N\<close> pageblocks of the section.
\<close>

definition contiguous :: "db \<Rightarrow> Section \<Rightarrow> bool" where
  "contiguous d self =
     (map pb_ordinality (pageblock_set d self) = [1..<Suc (length (pageblock_set d self))])"

definition section_rows :: "db \<Rightarrow> Section \<Rightarrow> PageBlock list" where
  "section_rows d self = filter (\<lambda>p. pb_section p = s_id self) (pageblock_objects d)"

lemma sorted_mset_eq: "sorted (xs::nat list) \<Longrightarrow> sorted ys \<Longrightarrow> mset xs = mset ys \<Longrightarrow> xs = ys"
  by (metis properties_for_sort sorted_sort_id)

lemma pageblock_set_mset: "mset (pageblock_set d self) = mset (section_rows d self)"
  by (simp add: pageblock_set_def section_rows_def)

lemma length_pageblock_set: "length (pageblock_set d self) = length (section_rows d self)"
  by (simp add: pageblock_set_def section_rows_def)

lemma contiguous_iff:
  "contiguous d self \<longleftrightarrow>
     mset (map pb_ordinality (section_rows d self)) = mset [1..<Suc (length (section_rows d self))]"
proof -
  have s: "sorted (map pb_ordinality (pageblock_set d self))"
    by (simp add: pageblock_set_def)
  have m: "mset (map pb_ordinality (pageblock_set d self)) = mset (map pb_ordinality (section_rows d self))"
    by (simp add: pageblock_set_def section_rows_def)
  show ?thesis
  proof
    assume "contiguous d self"
    then show "mset (map pb_ordinality (section_rows d self)) = mset [1..<Suc (length (section_rows d self))]"
      using m by (metis contiguous_def length_pageblock_set)
  next
    assume a: "mset (map pb_ordinality (section_rows d self)) = mset [1..<Suc (length (section_rows d self))]"
    have "mset (map pb_ordinality (pageblock_set d self)) = mset [1..<Suc (length (section_rows d self))]"
      using m a by (simp only:)
    then have "map pb_ordinality (pageblock_set d self) = [1..<Suc (length (section_rows d self))]"
      by (rule sorted_mset_eq[OF s sorted_upt])
    then show "contiguous d self"
      by (simp add: contiguous_def length_pageblock_set)
  qed
qed

lemma append_pageblock_contiguous:
  assumes "append_pageblock d self label c = (d', p)"
  shows "pb_ordinality p = length (pageblock_set d self) + 1"
    and "pageblock_objects d' = pageblock_objects d @ [p]"
    and "pb_id p \<notin> set (map pb_id (pageblock_objects d))"
    and "contiguous d s \<Longrightarrow> contiguous d' s"
proof -
  from assms have p: "p = \<lparr>pb_id = next_id (map pb_id (pageblock_objects d)), pb_section = s_id self,
               pb_ordinality = length (pageblock_set d self) + 1, pb_label = label, pb_css_extra = PyNone,
               pb_content_object = c\<rparr>"
    and d': "d' = d\<lparr>pageblock_objects := pageblock_objects d @ [p]\<rparr>"
    by (auto simp: append_pageblock_def Let_def)
  show 1: "pb_ordinality p = length (pageblock_set d self) + 1" by (simp add: p)
  show 2: "pageblock_objects d' = pageblock_objects d @ [p]" by (simp add: d')
  show "pb_id p \<notin> set (map pb_id (pageblock_objects d))"
    using next_id_fresh[of "map pb_id (pageblock_objects d)"] by (simp add: p)
  assume c: "contiguous d s"
  show "contiguous d' s"
  proof (cases "s_id s = s_id self")
    case True
    then have eq: "section_rows d s = section_rows d self" "pageblock_set d s = pageblock_set d self"
      by (simp_all add: section_rows_def pageblock_set_def)
    have r: "section_rows d' s = section_rows d s @ [p]"
      using True by (simp add: section_rows_def 2 p)
    have "pb_ordinality p = Suc (length (section_rows d s))"
      using 1 eq by (simp add: length_pageblock_set)
    with c show ?thesis
      unfolding contiguous_iff r by simp
  next
    case False
    then have "section_rows d' s = section_rows d s"
      by (simp add: section_rows_def 2 p)
    with c show ?thesis by (simp add: contiguous_iff)
  qed
qed

text \<open>
  Both renumbering loops write ordinalities row by row. Their effect on the table is that of
  one map from primary keys to ordinalities, built from the list of keys the loop runs over,
  a later key winning over an earlier equal one.
\<close>

definition set_ordinality :: "(nat \<rightharpoonup> nat) \<Rightarrow> PageBlock \<Rightarrow> PageBlock" where
  "set_ordinality m r = (case m (pb_id r) of None \<Rightarrow> r | Some k \<Rightarrow> r\<lparr>pb_ordinality := k\<rparr>)"

fun numbering :: "nat \<Rightarrow> nat list \<Rightarrow> (nat \<rightharpoonup> nat)" where
  "numbering i [] = Map.empty"
| "numbering i (ident # ids) = [ident \<mapsto> i] ++ numbering (Suc i) ids"

lemma set_ordinality_id [simp]: "pb_id (set_ordinality m r) = pb_id r"
  by (simp add: set_ordinality_def split: option.splits)

lemma set_ordinality_section [simp]: "pb_section (set_ordinality m r) = pb_section r"
  by (simp add: set_ordinality_def split: option.splits)

lemma set_ordinality_empty [simp]: "set_ordinality Map.empty r = r"
  by (simp add: set_ordinality_def)

lemma set_ordinality_comp:
  "set_ordinality m2 (set_ordinality m1 r) = set_ordinality (m1 ++ m2) r"
  by (auto simp: set_ordinality_def map_add_def split: option.splits)

lemma dom_numbering [simp]: "dom (numbering i ids) = set ids"
  by (induction ids arbitrary: i) auto

lemma numbering_notin: "x \<notin> set ids \<Longrightarrow> numbering i ids x = None"
  using dom_numbering[of i ids] by blast

lemma map_numbering:
  "distinct ids \<Longrightarrow> map (\<lambda>x. the (numbering i ids x)) ids = [i..<i + length ids]"
proof (induction ids arbitrary: i)
  case Nil
  then show ?case by simp
next
  case (Cons a ids)
  have e1: "map (\<lambda>x. the (numbering i (a # ids) x)) ids = map (\<lambda>x. the (numbering (Suc i) ids x)) ids"
    using Cons.prems by (auto simp: map_add_def split: option.splits dest: numbering_notin)
  have e2: "the (numbering i (a # ids) a) = i"
    using Cons.prems by (simp add: map_add_def numbering_notin)
  have e3: "[i..<i + length (a # ids)] = i # [Suc i..<Suc i + length ids]"
    by (simp add: upt_conv_Cons del: upt_Suc)
  have e4: "map (\<lambda>x. the (numbering (Suc i) ids x)) ids = [Suc i..<Suc i + length ids]"
    using Cons.IH[of "Suc i"] Cons.prems by simp
  show ?case
    unfolding e3 list.map e1 e2 e4 by (rule refl)
qed

lemma save_existing:
  assumes "distinct (map pb_id (pageblock_objects d))" "r \<in> set (pageblock_objects d)"
  shows "pageblock_save d (r\<lparr>pb_ordinality := k\<rparr>) =
         d\<lparr>pageblock_objects := map (set_ordinality [pb_id r \<mapsto> k]) (pageblock_objects d)\<rparr>"
proof -
  have "\<And>x. x \<in> set (pageblock_objects d) \<Longrightarrow> pb_id x = pb_id r \<Longrightarrow> x = r"
    using assms by (meson distinct_map inj_onD)
  then have "map (\<lambda>x. if pb_id x = pb_id r then r\<lparr>pb_ordinality := k\<rparr> else x) (pageblock_objects d)
        = map (set_ordinality [pb_id r \<mapsto> k]) (pageblock_objects d)"
    by (auto simp: set_ordinality_def)
  with assms(2) show ?thesis
    by (simp add: pageblock_save_def)
qed

lemma renumber_loop_rows:
  assumes "distinct (map pb_id (pageblock_objects d))" "set bs \<subseteq> set (pageblock_objects d)"
    "distinct (map pb_id bs)"
  shows "renumber_loop d i bs =
         d\<lparr>pageblock_objects :=
             map (set_ordinality (numbering i (map pb_id bs))) (pageblock_objects d)\<rparr>"
  using assms
proof (induction bs arbitrary: d i)
  case Nil
  then show ?case by simp
next
  case (Cons b bs)
  let ?d1 = "d\<lparr>pageblock_objects := map (set_ordinality [pb_id b \<mapsto> i]) (pageblock_objects d)\<rparr>"
  have b: "b \<in> set (pageblock_objects d)" using Cons.prems(2) by simp
  have s: "pageblock_save d (b\<lparr>pb_ordinality := i\<rparr>) = ?d1"
    by (rule save_existing[OF Cons.prems(1) b])
  have d1: "distinct (map pb_id (pageblock_objects ?d1))"
    using Cons.prems(1) by (simp add: comp_def)
  have sub: "set bs \<subseteq> set (pageblock_objects ?d1)"
  proof
    fix x assume x: "x \<in> set bs"
    moreover have "pb_id b \<notin> pb_id ` set bs" using Cons.prems(3) by simp
    ultimately have "pb_id x \<noteq> pb_id b" by (metis imageI)
    then have "set_ordinality [pb_id b \<mapsto> i] x = x" by (simp add: set_ordinality_def)
    moreover have "x \<in> set (pageblock_objects d)" using x Cons.prems(2) by auto
    ultimately show "x \<in> set (pageblock_objects ?d1)" by force
  qed
  have "renumber_loop ?d1 (Suc i) bs =
        ?d1\<lparr>pageblock_objects :=
             map (set_ordinality (numbering (Suc i) (map pb_id bs))) (pageblock_objects ?d1)\<rparr>"
    using Cons.prems(3) by (intro Cons.IH[OF d1 sub]) simp
  then show ?case
    by (simp add: s set_ordinality_comp comp_def)
qed

lemma objects_get_by_id:
  assumes "distinct (map pb_id rows)" "ident \<in> set (map pb_id rows)"
  shows "\<exists>r. objects_get (\<lambda>p. pb_id p = ident) rows = Inr r \<and> r \<in> set rows \<and> pb_id r = ident"
proof -
  have "filter (\<lambda>p. pb_id p = ident) rows \<noteq> []"
    using assms(2) by (auto simp: filter_empty_conv)
  with objects_get_distinct_key[OF assms(1), of "\<lambda>p. pb_id p = ident" ident]
  obtain r where r: "objects_get (\<lambda>p. pb_id p = ident) rows = Inr r"
    "filter (\<lambda>p. pb_id p = ident) rows = [r]" by auto
  with filter_singletonD[OF r(2)] show ?thesis by simp
qed

lemma update_pageblocks_order_loop_rows:
  assumes "distinct (map pb_id (pageblock_objects d))"
    "set ids \<subseteq> set (map pb_id (pageblock_objects d))"
  shows "update_pageblocks_order_loop d (enumerate n ids) =
         (d\<lparr>pageblock_objects :=
              map (set_ordinality (numbering (Suc n) ids)) (pageblock_objects d)\<rparr>, Inr ())"
  using assms
proof (induction ids arbitrary: d n)
  case Nil
  then show ?case by simp
next
  case (Cons ident ids)
  let ?d1 = "d\<lparr>pageblock_objects := map (set_ordinality [ident \<mapsto> Suc n]) (pageblock_objects d)\<rparr>"
  from objects_get_by_id[OF Cons.prems(1), of ident] Cons.prems(2)
  obtain sc where sc: "objects_get (\<lambda>p. pb_id p = ident) (pageblock_objects d) = Inr sc"
    "sc \<in> set (pageblock_objects d)" "pb_id sc = ident" by auto
  have s: "pageblock_save d (sc\<lparr>pb_ordinality := Suc n\<rparr>) = ?d1"
    using save_existing[OF Cons.prems(1) sc(2), of "Suc n"] sc(3) by simp
  have d1: "distinct (map pb_id (pageblock_objects ?d1))"
    using Cons.prems(1) by (simp add: comp_def)
  have sub: "set ids \<subseteq> set (map pb_id (pageblock_objects ?d1))"
    using Cons.prems(2) by (simp add: comp_def)
  have "update_pageblocks_order_loop ?d1 (enumerate (Suc n) ids) =
        (?d1\<lparr>pageblock_objects :=
              map (set_ordinality (numbering (Suc (Suc n)) ids)) (pageblock_objects ?d1)\<rparr>, Inr ())"
    by (rule Cons.IH[OF d1 sub])
  then show ?case
    by (simp add: sc(1) s set_ordinality_comp comp_def)
qed

lemma numbered_contiguous:
  assumes rows: "pageblock_objects d' = map (set_ordinality (numbering 1 ids)) (pageblock_objects d)"
    and di: "distinct ids"
    and perm: "mset ids = mset (map pb_id (section_rows d self))"
  shows "contiguous d' self"
proof -
  let ?m = "numbering 1 ids"
  let ?S = "section_rows d self"
  have S': "section_rows d' self = map (set_ordinality ?m) ?S"
    by (simp add: section_rows_def rows filter_map comp_def)
  have len: "length ?S = length ids"
    using perm by (metis length_map size_mset)
  have "\<And>r. r \<in> set ?S \<Longrightarrow> pb_id r \<in> set ids"
    using perm by (metis image_eqI set_map set_mset_mset)
  then have "\<And>r. r \<in> set ?S \<Longrightarrow> pb_ordinality (set_ordinality ?m r) = the (?m (pb_id r))"
  proof -
    fix r assume "r \<in> set ?S" and "\<And>r. r \<in> set ?S \<Longrightarrow> pb_id r \<in> set ids"
    then have "pb_id r \<in> dom ?m" by simp
    then obtain k where "?m (pb_id r) = Some k" by blast
    then show "pb_ordinality (set_ordinality ?m r) = the (?m (pb_id r))"
      by (simp add: set_ordinality_def)
  qed
  then have "map pb_ordinality (section_rows d' self) = map (\<lambda>x. the (?m x)) (map pb_id ?S)"
    by (simp add: S')
  then have "mset (map pb_ordinality (section_rows d' self)) =
             image_mset (\<lambda>x. the (?m x)) (mset (map pb_id ?S))"
    by (simp only: mset_map)
  also have "\<dots> = mset (map (\<lambda>x. the (?m x)) ids)"
    unfolding perm[symmetric] by (simp only: mset_map)
  also have "\<dots> = mset [1..<1 + length ids]"
    by (simp only: map_numbering[OF di])
  finally show ?thesis
    unfolding contiguous_iff by (simp add: S' len del: upt_Suc)
qed

lemma numbered_other_section:
  assumes rows: "pageblock_objects d' = map (set_ordinality (numbering i ids)) (pageblock_objects d)"
    and dt: "distinct (map pb_id (pageblock_objects d))"
    and sub: "set ids \<subseteq> set (map pb_id (section_rows d self))"
    and other: "s_id other \<noteq> s_id self"
  shows "section_rows d' other = section_rows d other"
proof -
  have "\<And>r. r \<in> set (section_rows d other) \<Longrightarrow> set_ordinality (numbering i ids) r = r"
  proof -
    fix r assume r: "r \<in> set (section_rows d other)"
    have "pb_id r \<notin> set ids"
    proof
      assume "pb_id r \<in> set ids"
      with sub obtain r' where r': "r' \<in> set (section_rows d self)" "pb_id r' = pb_id r" by auto
      moreover have "r' \<in> set (pageblock_objects d)" "r \<in> set (pageblock_objects d)"
        using r r'(1) by (simp_all add: section_rows_def)
      ultimately have "r' = r"
        using dt by (meson distinct_map inj_onD)
      with r r' other show False by (simp add: section_rows_def)
    qed
    then show "set_ordinality (numbering i ids) r = r"
      by (simp add: set_ordinality_def numbering_notin)
  qed
  then have "map (set_ordinality (numbering i ids)) (section_rows d other) = section_rows d other"
    by (simp add: map_idI)
  then show ?thesis
    by (simp add: section_rows_def rows filter_map comp_def)
qed

lemma contiguous_rows_cong:
  "section_rows d' s = section_rows d s \<Longrightarrow> contiguous d' s = contiguous d s"
  by (simp add: contiguous_iff)

lemma contiguous_s_id: "s_id a = s_id b \<Longrightarrow> contiguous d a = contiguous d b"
  by (simp add: contiguous_def pageblock_set_def)

lemma distinct_section_ids:
  "distinct (map pb_id (pageblock_objects d)) \<Longrightarrow> distinct (map pb_id (section_rows d s))"
  by (simp add: section_rows_def distinct_map_filter)

lemma pageblock_set_ids:
  assumes "distinct (map pb_id (pageblock_objects d))"
  shows "distinct (map pb_id (pageblock_set d s))"
    and "mset (map pb_id (pageblock_set d s)) = mset (map pb_id (section_rows d s))"
    and "set (pageblock_set d s) \<subseteq> set (pageblock_objects d)"
proof -
  show m: "mset (map pb_id (pageblock_set d s)) = mset (map pb_id (section_rows d s))"
    by (simp add: pageblock_set_mset)
  show "distinct (map pb_id (pageblock_set d s))"
    using distinct_section_ids[OF assms, of s] m by (metis mset_eq_imp_distinct_iff)
  show "set (pageblock_set d s) \<subseteq> set (pageblock_objects d)"
    by (auto simp: pageblock_set_def)
qed

lemma renumber_pageblocks_contiguous:
  assumes "distinct (map pb_id (pageblock_objects d))"
  shows "contiguous (renumber_pageblocks d sec) sec"
    and "distinct (map pb_id (pageblock_objects (renumber_pageblocks d sec)))"
    and "length (section_rows (renumber_pageblocks d sec) s) = length (section_rows d s)"
    and "contiguous d s \<Longrightarrow> contiguous (renumber_pageblocks d sec) s"
proof -
  let ?ids = "map pb_id (pageblock_set d sec)"
  let ?d' = "renumber_pageblocks d sec"
  note p = pageblock_set_ids[OF assms, of sec]
  have rows: "pageblock_objects ?d' = map (set_ordinality (numbering 1 ?ids)) (pageblock_objects d)"
    unfolding renumber_pageblocks_def renumber_loop_rows[OF assms p(3) p(1)] by simp
  show "length (section_rows ?d' s) = length (section_rows d s)"
    by (simp add: section_rows_def rows filter_map comp_def)
  show c: "contiguous ?d' sec"
    by (rule numbered_contiguous[OF rows p(1) p(2)])
  show "distinct (map pb_id (pageblock_objects ?d'))"
    using assms by (simp add: rows comp_def)
  assume cs: "contiguous d s"
  show "contiguous ?d' s"
  proof (cases "s_id s = s_id sec")
    case True
    with c show ?thesis by (simp add: contiguous_s_id[of s sec])
  next
    case False
    have "set ?ids \<subseteq> set (map pb_id (section_rows d sec))"
      using p(2) by (metis mset_eq_setD subset_refl)
    from contiguous_rows_cong[OF numbered_other_section[OF rows assms this False]] cs
    show ?thesis by simp
  qed
qed

lemma length_filter_neq:
  "distinct xs \<Longrightarrow> p \<in> set xs \<Longrightarrow> length (filter (\<lambda>q. q \<noteq> p) xs) = length xs - 1"
proof (induction xs)
  case Nil
  then show ?case by simp
next
  case (Cons x xs)
  show ?case
  proof (cases "x = p")
    case True
    with Cons.prems have "filter (\<lambda>q. q \<noteq> p) xs = xs"
      by (auto simp: filter_id_conv)
    with True show ?thesis by simp
  next
    case False
    with Cons have "length (filter (\<lambda>q. q \<noteq> p) xs) = length xs - 1" "xs \<noteq> []"
      by auto
    with False show ?thesis by (cases xs) simp_all
  qed
qed

lemma delete_contiguous:
  assumes dt: "distinct (map pb_id (pageblock_objects d))"
    and p: "p \<in> set (pageblock_objects d)"
    and sec: "pageblock_section d p = Inr sec"
  shows "snd (delete d p) = Inr ()"
    and "map pb_ordinality (pageblock_set (fst (delete d p)) sec) = [1..<length (pageblock_set d sec)]"
    and "distinct (map pb_id (pageblock_objects (fst (delete d p))))"
    and "contiguous d s \<Longrightarrow> contiguous (fst (delete d p)) s"
proof -
  let ?d0 = "d\<lparr>pageblock_objects := filter (\<lambda>q. pb_id q \<noteq> pb_id p) (pageblock_objects d)\<rparr>"
  have del: "delete d p = (renumber_pageblocks ?d0 sec, Inr ())"
    using sec by (simp add: delete_def Let_def)
  have sid: "s_id sec = pb_section p"
    using objects_get_Inr[OF sec[unfolded pageblock_section_def]] by simp
  have d0: "distinct (map pb_id (pageblock_objects ?d0))"
    using dt by (simp add: distinct_map_filter)
  have uniq: "\<And>q. q \<in> set (pageblock_objects d) \<Longrightarrow> pb_id q = pb_id p \<Longrightarrow> q = p"
    using dt p by (meson distinct_map inj_onD)
  show "snd (delete d p) = Inr ()" by (simp add: del)
  show "distinct (map pb_id (pageblock_objects (fst (delete d p))))"
    unfolding del fst_conv by (rule renumber_pageblocks_contiguous(2)[OF d0])
  have rows0: "section_rows ?d0 sec = filter (\<lambda>q. pb_id q \<noteq> pb_id p) (section_rows d sec)"
    by (simp add: section_rows_def conj_commute)
  have pin: "p \<in> set (section_rows d sec)"
    using p sid by (simp add: section_rows_def)
  have "filter (\<lambda>q. pb_id q \<noteq> pb_id p) (section_rows d sec) = filter (\<lambda>q. q \<noteq> p) (section_rows d sec)"
    using uniq by (intro filter_cong) (auto simp: section_rows_def)
  moreover have "distinct (section_rows d sec)"
    using distinct_section_ids[OF dt, of sec] by (simp add: distinct_map)
  ultimately have len: "length (section_rows ?d0 sec) = length (section_rows d sec) - 1"
    using pin by (simp add: rows0 length_filter_neq)
  have c: "contiguous (renumber_pageblocks ?d0 sec) sec"
    by (rule renumber_pageblocks_contiguous(1)[OF d0])
  have "length (pageblock_set (renumber_pageblocks ?d0 sec) sec) = length (section_rows ?d0 sec)"
    using renumber_pageblocks_contiguous(3)[OF d0, of sec sec]
    by (simp add: length_pageblock_set)
  with c len pin show "map pb_ordinality (pageblock_set (fst (delete d p)) sec) = [1..<length (pageblock_set d sec)]"
    unfolding del fst_conv contiguous_def
    by (cases "section_rows d sec") (simp_all add: length_pageblock_set del: upt_Suc)
  assume cs: "contiguous d s"
  show "contiguous (fst (delete d p)) s"
  proof (cases "s_id s = s_id sec")
    case True
    with c show ?thesis by (simp add: del contiguous_s_id[of s sec])
  next
    case False
    have "section_rows ?d0 s = filter (\<lambda>q. pb_id q \<noteq> pb_id p) (section_rows d s)"
      by (simp add: section_rows_def conj_commute)
    also have "\<dots> = section_rows d s"
    proof -
      have "\<And>q. q \<in> set (section_rows d s) \<Longrightarrow> pb_id q \<noteq> pb_id p"
      proof
        fix q assume q: "q \<in> set (section_rows d s)" "pb_id q = pb_id p"
        then have "q = p" using uniq by (simp add: section_rows_def)
        with q(1) False sid show False by (simp add: section_rows_def)
      qed
      then show ?thesis by (simp add: filter_id_conv)
    qed
    finally have "section_rows ?d0 s = section_rows d s" .
    from contiguous_rows_cong[OF this] cs have "contiguous ?d0 s" by simp
    then show ?thesis
      unfolding del fst_conv by (rule renumber_pageblocks_contiguous(4)[OF d0])
  qed
qed

lemma update_pageblocks_order_contiguous:
  assumes dt: "distinct (map pb_id (pageblock_objects d))"
    and di: "distinct ids"
    and ids: "set ids = set (map pb_id (pageblock_set d self))"
  shows "snd (update_pageblocks_order d self ids) = Inr ()"
    and "contiguous (fst (update_pageblocks_order d self ids)) self"
    and "distinct (map pb_id (pageblock_objects (fst (update_pageblocks_order d self ids))))"
    and "contiguous d s \<Longrightarrow> contiguous (fst (update_pageblocks_order d self ids)) s"
proof -
  let ?d' = "d\<lparr>pageblock_objects := map (set_ordinality (numbering 1 ids)) (pageblock_objects d)\<rparr>"
  note p = pageblock_set_ids[OF dt, of self]
  have sub: "set ids \<subseteq> set (map pb_id (pageblock_objects d))"
    using ids p(3) by auto
  have u: "update_pageblocks_order d self ids = (?d', Inr ())"
    unfolding update_pageblocks_order_def
    using update_pageblocks_order_loop_rows[OF dt sub, of 0] by simp
  have rows: "pageblock_objects ?d' = map (set_ordinality (numbering 1 ids)) (pageblock_objects d)"
    by simp
  have seteq: "set ids = set (map pb_id (section_rows d self))"
    using ids p(2) by (metis mset_eq_setD)
  have perm: "mset ids = mset (map pb_id (section_rows d self))"
    using seteq di distinct_section_ids[OF dt, of self] set_eq_iff_mset_eq_distinct by blast
  show "snd (update_pageblocks_order d self ids) = Inr ()" by (simp add: u)
  show c: "contiguous (fst (update_pageblocks_order d self ids)) self"
    unfolding u fst_conv by (rule numbered_contiguous[OF rows di perm])
  show "distinct (map pb_id (pageblock_objects (fst (update_pageblocks_order d self ids))))"
    using dt by (simp add: u comp_def)
  assume cs: "contiguous d s"
  show "contiguous (fst (update_pageblocks_order d self ids)) s"
  proof (cases "s_id s = s_id self")
    case True
    with c show ?thesis by (simp add: contiguous_s_id[of s self])
  next
    case False
    have "set ids \<subseteq> set (map pb_id (section_rows d self))" using seteq by simp
    from contiguous_rows_cong[OF numbered_other_section[OF rows dt this False]] cs
    show ?thesis unfolding u fst_conv by simp
  qed
qed

text \<open>
  C3, as amended. On a table with unique primary keys: \<^verbatim>\<open>append_pageblock\<close> gives the new
  block the ordinality block count + 1 and keeps every section contiguous that was;
  \<^verbatim>\<open>PageBlock.delete\<close> of a stored pageblock renumbers the remaining blocks of its section to
  \<open>1, \<dots>, N - 1\<close> and keeps every other section as it was; \<^verbatim>\<open>renumber_pageblocks\<close> makes its
  section contiguous; and \<^verbatim>\<open>update_pageblocks_order\<close> keeps the invariant when
  \<^verbatim>\<open>pageblock_ids\<close> lists the primary keys of the section's pageblocks, each exactly once.
\<close>

theorem ordinality_contiguous:
  assumes "distinct (map pb_id (pageblock_objects d))"
  shows "(pb_ordinality (snd (append_pageblock d self label c)) = length (pageblock_set d self) + 1 \<and>
          distinct (map pb_id (pageblock_objects (fst (append_pageblock d self label c)))) \<and>
          (\<forall>s. contiguous d s \<longrightarrow> contiguous (fst (append_pageblock d self label c)) s)) \<and>
         (\<forall>sec. p \<in> set (pageblock_objects d) \<and> pageblock_section d p = Inr sec \<longrightarrow>
            snd (delete d p) = Inr () \<and>
            map pb_ordinality (pageblock_set (fst (delete d p)) sec) =
              [1..<length (pageblock_set d sec)] \<and>
            distinct (map pb_id (pageblock_objects (fst (delete d p)))) \<and>
            (\<forall>s. contiguous d s \<longrightarrow> contiguous (fst (delete d p)) s)) \<and>
         (contiguous (renumber_pageblocks d self) self \<and>
          distinct (map pb_id (pageblock_objects (renumber_pageblocks d self))) \<and>
          (\<forall>s. contiguous d s \<longrightarrow> contiguous (renumber_pageblocks d self) s)) \<and>
         (distinct ids \<and> set ids = set (map pb_id (pageblock_set d self)) \<longrightarrow>
            snd (update_pageblocks_order d self ids) = Inr () \<and>
            contiguous (fst (update_pageblocks_order d self ids)) self \<and>
            distinct (map pb_id (pageblock_objects (fst (update_pageblocks_order d self ids)))) \<and>
            (\<forall>s. contiguous d s \<longrightarrow> contiguous (fst (update_pageblocks_order d self ids)) s))"
proof -
  obtain d' q where a: "append_pageblock d self label c = (d', q)"
    by (cases "append_pageblock d self label c")
  note ap = append_pageblock_contiguous[OF a]
  have A: "pb_ordinality (snd (append_pageblock d self label c)) = length (pageblock_set d self) + 1 \<and>
          distinct (map pb_id (pageblock_objects (fst (append_pageblock d self label c)))) \<and>
          (\<forall>s. contiguous d s \<longrightarrow> contiguous (fst (append_pageblock d self label c)) s)"
    using ap(1) ap(3) ap(4) assms unfolding a fst_conv snd_conv ap(2) by simp
  have B: "\<forall>sec. p \<in> set (pageblock_objects d) \<and> pageblock_section d p = Inr sec \<longrightarrow>
            snd (delete d p) = Inr () \<and>
            map pb_ordinality (pageblock_set (fst (delete d p)) sec) =
              [1..<length (pageblock_set d sec)] \<and>
            distinct (map pb_id (pageblock_objects (fst (delete d p)))) \<and>
            (\<forall>s. contiguous d s \<longrightarrow> contiguous (fst (delete d p)) s)"
    using delete_contiguous[OF assms] by blast
  have C: "contiguous (renumber_pageblocks d self) self \<and>
          distinct (map pb_id (pageblock_objects (renumber_pageblocks d self))) \<and>
          (\<forall>s. contiguous d s \<longrightarrow> contiguous (renumber_pageblocks d self) s)"
    using renumber_pageblocks_contiguous(1,2,4)[OF assms] by blast
  have D: "distinct ids \<and> set ids = set (map pb_id (pageblock_set d self)) \<longrightarrow>
            snd (update_pageblocks_order d self ids) = Inr () \<and>
            contiguous (fst (update_pageblocks_order d self ids)) self \<and>
            distinct (map pb_id (pageblock_objects (fst (update_pageblocks_order d self ids)))) \<and>
            (\<forall>s. contiguous d s \<longrightarrow> contiguous (fst (update_pageblocks_order d self ids)) s)"
    using update_pageblocks_order_contiguous[OF assms] by blast
  show ?thesis
    by (rule conjI[OF A conjI[OF B conjI[OF C D]]])
qed

lemmas quiz_defs = example_quiz_db_def example_quiz1_def example_quiz2_def quiz_def

lemma example_quiz_set:
  "pageblock_set example_quiz_db example_intro = [example_quiz1, example_quiz2]"
  by (simp add: pageblock_set_def quiz_defs example_defs)

text \<open>
  Not every operation keeps the invariant: \<^verbatim>\<open>update_pageblocks_order\<close> with only the second
  of the two pageblocks of the page numbers that block 1, next to the first block, which
  keeps its 1. The docstring of the method warns of lists that do not match up.
\<close>

theorem ordinality_contiguous_counterexample:
  "contiguous example_quiz_db example_intro \<and>
   \<not> contiguous (fst (update_pageblocks_order example_quiz_db example_intro [2])) example_intro"
  by (simp add: contiguous_def pageblock_set_def update_pageblocks_order_def objects_get_def
      pageblock_save_def quiz_defs example_defs)

theorem ordinality_contiguous_witness:
  "distinct (map pb_id (pageblock_objects example_quiz_db)) \<and>
   contiguous example_quiz_db example_intro \<and>
   pb_ordinality (snd (append_pageblock example_quiz_db example_intro (PyStr ''third'') (quiz False))) = 3 \<and>
   contiguous (fst (append_pageblock example_quiz_db example_intro (PyStr ''third'') (quiz False)))
     example_intro \<and>
   example_quiz1 \<in> set (pageblock_objects example_quiz_db) \<and>
   pageblock_section example_quiz_db example_quiz1 = Inr example_intro \<and>
   map pb_ordinality (pageblock_set (fst (delete example_quiz_db example_quiz1)) example_intro) = [1] \<and>
   distinct [2, 1 :: nat] \<and>
   set [2, 1] = set (map pb_id (pageblock_set example_quiz_db example_intro)) \<and>
   contiguous (fst (update_pageblocks_order example_quiz_db example_intro [2, 1])) example_intro"
proof -
  have h: "distinct (map pb_id (pageblock_objects example_quiz_db))"
    by (simp add: quiz_defs example_defs)
  have c: "contiguous example_quiz_db example_intro"
    by (simp add: contiguous_def example_quiz_set) (simp add: quiz_defs)
  have m: "example_quiz1 \<in> set (pageblock_objects example_quiz_db)"
    by (simp add: example_quiz_db_def)
  have s: "pageblock_section example_quiz_db example_quiz1 = Inr example_intro"
    by (simp add: pageblock_section_def objects_get_def quiz_defs example_defs)
  have i: "set [2, 1] = set (map pb_id (pageblock_set example_quiz_db example_intro))"
    by (simp add: example_quiz_set) (auto simp: quiz_defs)
  show ?thesis
    using ordinality_contiguous[OF h, of example_intro "PyStr ''third''" "quiz False"
        example_quiz1 "[2, 1]"] h c m s i
    by (simp add: example_quiz_set)
qed

subsection \<open>The root of a hierarchy and the URL of a section\<close>

text \<open>
  The section table is a forest when no two rows share a path, no path is empty and the
  path of every row below the first level, without its last step, is the path of a row.
  The tree library keeps it so: \<^verbatim>\<open>add_root\<close> and \<^verbatim>\<open>add_child\<close> number a new node after the last
  of its siblings.
\<close>

definition tree_ok :: "db \<Rightarrow> bool" where
  "tree_ok d =
     (distinct (map s_path (section_objects d)) \<and>
      (\<forall>s \<in> set (section_objects d).
         s_path s \<noteq> [] \<and>
         (1 < get_depth s \<longrightarrow> butlast (s_path s) \<in> set (map s_path (section_objects d)))))"

text \<open>
  The invariant of the data model: a root section has the label \<^verbatim>\<open>Root\<close> and the empty
  slug. Sections get their label and slug when they are created, roots by \<^verbatim>\<open>get_root\<close> and
  \<^verbatim>\<open>add_section_from_dict\<close> only.
\<close>

definition roots_ok :: "db \<Rightarrow> bool" where
  "roots_ok d =
     (\<forall>s \<in> set (section_objects d). is_root s \<longrightarrow> s_label s = ''Root'' \<and> s_slug s = '''')"

text \<open>The ancestors of a node, as the tree library lists them: the rows at the proper
  prefixes of its path, the root first.\<close>

definition get_ancestors :: "db \<Rightarrow> Section \<Rightarrow> Section list" where
  "get_ancestors d self =
     concat (map (\<lambda>k. filter (\<lambda>r. s_path r = take k (s_path self)) (section_objects d))
               [1..<get_depth self])"

lemma sort_key_last_max:
  assumes "x \<in> set xs"
  shows "f x \<le> f (last (sort_key f xs))"
proof -
  let ?ys = "sort_key f xs"
  have ne: "?ys \<noteq> []" using assms by (metis empty_iff list.set(1) set_sort)
  have "x \<in> set ?ys" using assms by simp
  then obtain i where i: "i < length ?ys" "?ys ! i = x" by (meson in_set_conv_nth)
  have "sorted (map f ?ys)" by simp
  then have "map f ?ys ! i \<le> map f ?ys ! (length ?ys - 1)"
    using i(1) by (intro sorted_nth_mono) auto
  then show ?thesis using i ne by (simp add: last_conv_nth)
qed

lemma add_root_fresh_path:
  assumes "add_root d label slug h = (d', s)"
  shows "s_path s \<notin> set (map s_path (section_objects d))" "get_depth s = 1"
    "section_objects d' = section_objects d @ [s]" "s_label s = label" "s_slug s = slug"
    "s_hierarchy s = h"
proof -
  let ?roots = "sort_key s_path (filter (\<lambda>r. get_depth r = 1) (section_objects d))"
  let ?p = "if ?roots = [] then [1] else [Suc (last (s_path (last ?roots)))]"
  from assms have s: "s = \<lparr>s_id = next_id (map s_id (section_objects d)), s_path = ?p,
               s_label = label, s_slug = slug, s_hierarchy = h\<rparr>"
    and d': "d' = d\<lparr>section_objects := section_objects d @ [s]\<rparr>"
    by (auto simp: add_root_def Let_def)
  show "get_depth s = 1" "section_objects d' = section_objects d @ [s]"
    "s_label s = label" "s_slug s = slug" "s_hierarchy s = h"
    by (simp_all add: s d' get_depth_def)
  show "s_path s \<notin> set (map s_path (section_objects d))"
  proof
    assume "s_path s \<in> set (map s_path (section_objects d))"
    then obtain r where r: "r \<in> set (section_objects d)" "s_path r = ?p"
      by (auto simp: s)
    then have "get_depth r = 1" by (simp add: get_depth_def split: if_splits)
    with r(1) have rin: "r \<in> set (filter (\<lambda>r. get_depth r = 1) (section_objects d))" by simp
    then have ne: "?roots \<noteq> []" by (metis empty_iff list.set(1) set_sort)
    have "s_path r \<le> s_path (last ?roots)" by (rule sort_key_last_max[OF rin])
    moreover have "last ?roots \<in> set (filter (\<lambda>r. get_depth r = 1) (section_objects d))"
      using ne by (metis last_in_set set_sort)
    then obtain j where "s_path (last ?roots) = [j]"
      by (auto simp: get_depth_def length_Suc_conv)
    ultimately show False using r(2) ne by simp
  qed
qed

lemma add_root_ok:
  assumes "add_root d ''Root'' '''' h = (d', s)" "tree_ok d" "roots_ok d"
  shows "tree_ok d'" "roots_ok d'"
proof -
  note f = add_root_fresh_path[OF assms(1)]
  have p: "s_path s \<noteq> []" "\<not> 1 < get_depth s" using f(2) by (auto simp: get_depth_def)
  show "tree_ok d'"
    using assms(2) f(1) p unfolding tree_ok_def f(3) by auto
  show "roots_ok d'"
    using assms(3) f(4,5) unfolding roots_ok_def f(3) by auto
qed

lemma Section_get_root_is_root:
  assumes "tree_ok d" "s \<in> set (section_objects d)" "Section_get_root d s = Inr r"
  shows "is_root r" "r \<in> set (section_objects d)" "s_path r = take 1 (s_path s)"
proof -
  from objects_get_Inr[OF assms(3)[unfolded Section_get_root_def]]
  show r: "r \<in> set (section_objects d)" "s_path r = take 1 (s_path s)" by simp_all
  have "s_path s \<noteq> []" using assms(1,2) by (auto simp: tree_ok_def)
  then show "is_root r" using r(2) by (cases "s_path s") (simp_all add: is_root_def get_depth_def)
qed

lemma Hierarchy_get_root_ok:
  assumes "tree_ok d" "roots_ok d" "Hierarchy_get_root d h = (d', Inr r)"
  shows "s_label r = ''Root'' \<and> s_slug r = '''' \<and> is_root r \<and> r \<in> set (section_objects d') \<and>
         tree_ok d' \<and> roots_ok d'"
proof (cases "objects_get (\<lambda>r. s_hierarchy r = h_id h \<and> s_label r = ''Root'') (section_objects d)")
  case (Inr s)
  then have s: "s \<in> set (section_objects d)" using objects_get_Inr by fastforce
  show ?thesis
  proof (cases "Section_get_root d s")
    case (Inl e)
    have "s_path s \<noteq> []" using assms(1) s by (auto simp: tree_ok_def)
    show ?thesis
    proof (cases "e = DoesNotExist")
      case True
      obtain d1 s1 where a: "add_root d ''Root'' '''' (h_id h) = (d1, s1)"
        by (cases "add_root d ''Root'' '''' (h_id h)")
      with Inr Inl True assms(3) have "d' = d1" "r = s1"
        by (simp_all add: Hierarchy_get_root_def)
      with add_root_ok[OF a assms(1,2)] add_root_fresh_path[OF a] show ?thesis
        by (simp add: is_root_def)
    next
      case False
      with Inr Inl assms(3) show ?thesis
        by (cases e) (simp_all add: Hierarchy_get_root_def)
    qed
  next
    case r': (Inr r')
    with Inr assms(3) have "d' = d" "r = r'" by (simp_all add: Hierarchy_get_root_def)
    with Section_get_root_is_root[OF assms(1) s r'] assms(1,2) show ?thesis
      by (auto simp: roots_ok_def)
  qed
next
  case (Inl e)
  show ?thesis
  proof (cases "e = DoesNotExist")
    case True
    obtain d1 s1 where a: "add_root d ''Root'' '''' (h_id h) = (d1, s1)"
      by (cases "add_root d ''Root'' '''' (h_id h)")
    with Inl True assms(3) have "d' = d1" "r = s1"
      by (simp_all add: Hierarchy_get_root_def)
    with add_root_ok[OF a assms(1,2)] add_root_fresh_path[OF a] show ?thesis
      by (simp add: is_root_def)
  next
    case False
    with Inl assms(3) show ?thesis
      by (cases e) (simp_all add: Hierarchy_get_root_def)
  qed
qed

lemma prefix_row_exists:
  assumes "tree_ok d" "s \<in> set (section_objects d)" "1 \<le> k" "k \<le> length (s_path s)"
  shows "take k (s_path s) \<in> set (map s_path (section_objects d))"
  using assms(3,4)
proof (induction "length (s_path s) - k" arbitrary: k)
  case 0
  then have "take k (s_path s) = s_path s" by simp
  with assms(2) show ?case by simp
next
  case (Suc n)
  then have k: "Suc k \<le> length (s_path s)" "1 \<le> Suc k" "n = length (s_path s) - Suc k"
    by simp_all
  from Suc.hyps(1)[OF k(3) k(2) k(1)]
  obtain r where r: "r \<in> set (section_objects d)" "s_path r = take (Suc k) (s_path s)"
    by auto
  have "1 < get_depth r" using r(2) k(1) Suc.prems(1) by (simp add: get_depth_def)
  with assms(1) r(1) have "butlast (s_path r) \<in> set (map s_path (section_objects d))"
    by (auto simp: tree_ok_def)
  moreover have "butlast (s_path r) = take k (s_path s)"
    using r(2) k(1) by (simp add: butlast_take)
  ultimately show ?case by simp
qed

lemma prefix_row:
  assumes "tree_ok d" "s \<in> set (section_objects d)" "1 \<le> k" "k \<le> length (s_path s)"
  shows "\<exists>r. objects_get (\<lambda>r. s_path r = take k (s_path s)) (section_objects d) = Inr r \<and>
             filter (\<lambda>r. s_path r = take k (s_path s)) (section_objects d) = [r] \<and>
             r \<in> set (section_objects d) \<and> s_path r = take k (s_path s)"
proof -
  have dp: "distinct (map s_path (section_objects d))"
    using assms(1) by (simp add: tree_ok_def)
  have "filter (\<lambda>r. s_path r = take k (s_path s)) (section_objects d) \<noteq> []"
    using prefix_row_exists[OF assms] by (auto simp: filter_empty_conv)
  with objects_get_distinct_key[OF dp, of "\<lambda>r. s_path r = take k (s_path s)" "take k (s_path s)"]
  obtain r where r: "objects_get (\<lambda>r. s_path r = take k (s_path s)) (section_objects d) = Inr r"
    "filter (\<lambda>r. s_path r = take k (s_path s)) (section_objects d) = [r]" by auto
  with filter_singletonD[OF r(2)] show ?thesis by simp
qed

lemma Section_get_root_exists:
  assumes "tree_ok d" "s \<in> set (section_objects d)"
  shows "\<exists>root. Section_get_root d s = Inr root \<and> is_root root \<and> root \<in> set (section_objects d)"
proof -
  have "s_path s \<noteq> []" using assms by (auto simp: tree_ok_def)
  then have "1 \<le> length (s_path s)" by (cases "s_path s") simp_all
  from prefix_row[OF assms, of 1] this obtain r where
    "Section_get_root d s = Inr r" by (auto simp: Section_get_root_def)
  with Section_get_root_is_root[OF assms this] show ?thesis by simp
qed

lemma get_parent_ok:
  assumes "tree_ok d" "s \<in> set (section_objects d)" "\<not> is_root s"
  shows "\<exists>p. get_parent d s = Inr (Some p) \<and> p \<in> set (section_objects d) \<and>
             s_path p = butlast (s_path s) \<and> get_depth s = Suc (get_depth p) \<and>
             filter (\<lambda>r. s_path r = butlast (s_path s)) (section_objects d) = [p]"
proof -
  have "s_path s \<noteq> []" using assms by (auto simp: tree_ok_def)
  with assms(3) have len: "1 < length (s_path s)"
    by (cases "s_path s") (auto simp: is_root_def get_depth_def)
  have bl: "butlast (s_path s) = take (length (s_path s) - 1) (s_path s)"
    by (simp add: butlast_conv_take)
  have "1 \<le> length (s_path s) - 1" "length (s_path s) - 1 \<le> length (s_path s)"
    using len by simp_all
  from prefix_row[OF assms(1,2) this]
  obtain p where p: "objects_get (\<lambda>r. s_path r = butlast (s_path s)) (section_objects d) = Inr p"
    "filter (\<lambda>r. s_path r = butlast (s_path s)) (section_objects d) = [p]"
    "p \<in> set (section_objects d)" "s_path p = butlast (s_path s)"
    unfolding bl by blast
  then show ?thesis using len by (simp add: get_parent_def get_depth_def)
qed

lemma get_ancestors_parent:
  assumes "get_depth s = Suc (get_depth p)" "s_path p = butlast (s_path s)"
    "filter (\<lambda>r. s_path r = butlast (s_path s)) (section_objects d) = [p]"
    "s_path p \<noteq> []"
  shows "get_ancestors d s = get_ancestors d p @ [p]"
proof (cases "get_depth p")
  case 0
  with assms(4) show ?thesis by (simp add: get_depth_def)
next
  case (Suc n)
  have bl: "butlast (s_path s) = take (get_depth p) (s_path s)"
    using assms(1) by (simp add: butlast_conv_take get_depth_def)
  have up: "[1..<get_depth s] = [1..<get_depth p] @ [get_depth p]"
    using assms(1) Suc by simp
  have "\<And>k. k \<in> set [1..<get_depth p] \<Longrightarrow> take k (s_path s) = take k (s_path p)"
  proof -
    fix k assume "k \<in> set [1..<get_depth p]"
    then have "k \<le> length (s_path s) - 1" using assms(1) by (simp add: get_depth_def)
    then have "take k (take (length (s_path s) - 1) (s_path s)) = take k (s_path s)"
      by (simp add: min_def)
    then show "take k (s_path s) = take k (s_path p)"
      by (simp add: assms(2) butlast_conv_take)
  qed
  then have m: "map (\<lambda>k. filter (\<lambda>r. s_path r = take k (s_path s)) (section_objects d)) [1..<get_depth p]
           = map (\<lambda>k. filter (\<lambda>r. s_path r = take k (s_path p)) (section_objects d)) [1..<get_depth p]"
    by (intro map_cong) simp_all
  have "filter (\<lambda>r. s_path r = take (get_depth p) (s_path s)) (section_objects d) = [p]"
    using assms(3) unfolding bl .
  then show ?thesis
    unfolding get_ancestors_def up map_append concat_append m by simp
qed

lemma get_ancestors_root: "is_root s \<Longrightarrow> get_ancestors d s = []"
  by (simp add: get_ancestors_def is_root_def)

lemma Section_get_absolute_url_ok:
  assumes "tree_ok d"
  shows "s \<in> set (section_objects d) \<Longrightarrow> Section_get_root d s = Inr root \<Longrightarrow>
         section_hierarchy d root = Inr hy \<Longrightarrow>
         Section_get_absolute_url d s =
           Inr (h_base_url hy @
                concat (map (\<lambda>a. s_slug a @ ''/'')
                          (filter (\<lambda>a. \<not> is_root a) (get_ancestors d s @ [s]))))"
proof (induction "get_depth s" arbitrary: s)
  case 0
  then have "s_path s = []" by (simp add: get_depth_def)
  with assms 0(2) show ?case by (auto simp: tree_ok_def)
next
  case (Suc n)
  show ?case
  proof (cases "is_root s")
    case True
    have t: "take 1 (s_path s) = s_path s" using True by (simp add: is_root_def get_depth_def)
    from objects_get_Inr[OF Suc.prems(2)[unfolded Section_get_root_def]]
    have "root \<in> set (section_objects d)" "s_path root = s_path s" unfolding t by simp_all
    moreover have "distinct (map s_path (section_objects d))"
      using assms by (simp add: tree_ok_def)
    ultimately have "root = s"
      using Suc.prems(1) by (meson distinct_map inj_onD)
    with True Suc.prems(3) show ?thesis
      by (simp add: Section_get_absolute_url.simps[of d s] get_ancestors_root
          Hierarchy_get_absolute_url_def)
  next
    case False
    from get_parent_ok[OF assms Suc.prems(1) False] obtain p where
      p: "get_parent d s = Inr (Some p)" "p \<in> set (section_objects d)"
      "s_path p = butlast (s_path s)" "get_depth s = Suc (get_depth p)"
      "filter (\<lambda>r. s_path r = butlast (s_path s)) (section_objects d) = [p]"
      by blast
    have n: "n = get_depth p" using Suc.hyps(2) p(4) by simp
    have pne: "s_path p \<noteq> []" using assms p(2) by (auto simp: tree_ok_def)
    then have "take 1 (s_path p) = take 1 (s_path s)"
      using p(3) by (cases "s_path s" rule: rev_cases; cases "s_path p") auto
    then have rp: "Section_get_root d p = Inr root"
      using Suc.prems(2) by (simp add: Section_get_root_def)
    have ih: "Section_get_absolute_url d p =
           Inr (h_base_url hy @
                concat (map (\<lambda>a. s_slug a @ ''/'')
                          (filter (\<lambda>a. \<not> is_root a) (get_ancestors d p @ [p]))))"
      by (rule Suc.hyps(1)[OF n p(2) rp Suc.prems(3)])
    show ?thesis
      using False p(1) ih
      by (simp add: Section_get_absolute_url.simps[of d s] get_ancestors_parent[OF p(4) p(3) p(5) pne])
  qed
qed

declare Section_get_absolute_url.simps [simp del]

lemma append_le_append: "(xs @ [a] \<le> xs @ [b]) = (a \<le> (b::nat))"
  by (induction xs) auto

lemma add_child_fresh_path:
  assumes "add_child d self label slug h = (d', s)"
  shows "s_path s \<notin> set (map s_path (section_objects d))" "butlast (s_path s) = s_path self"
    "get_depth s = Suc (get_depth self)" "section_objects d' = section_objects d @ [s]"
    "s_label s = label" "s_slug s = slug" "s_hierarchy s = h"
proof -
  let ?cs = "get_children d self"
  let ?p = "if is_leaf d self then s_path self @ [1]
            else s_path self @ [Suc (last (s_path (last ?cs)))]"
  from assms have s: "s = \<lparr>s_id = next_id (map s_id (section_objects d)), s_path = ?p,
               s_label = label, s_slug = slug, s_hierarchy = h\<rparr>"
    and d': "d' = d\<lparr>section_objects := section_objects d @ [s]\<rparr>"
    by (auto simp: add_child_def Let_def)
  show "butlast (s_path s) = s_path self" "get_depth s = Suc (get_depth self)"
    "section_objects d' = section_objects d @ [s]"
    "s_label s = label" "s_slug s = slug" "s_hierarchy s = h"
    by (simp_all add: s d' get_depth_def)
  show "s_path s \<notin> set (map s_path (section_objects d))"
  proof
    assume "s_path s \<in> set (map s_path (section_objects d))"
    then obtain r where r: "r \<in> set (section_objects d)" "s_path r = ?p"
      by (auto simp: s)
    let ?C = "filter (\<lambda>c. get_depth c = Suc (get_depth self) \<and>
                 take (get_depth self) (s_path c) = s_path self) (section_objects d)"
    have rin: "r \<in> set ?C" using r by (simp add: get_depth_def)
    have seteq: "set ?cs = set ?C" by (simp add: get_children_def)
    have ne: "?cs \<noteq> []" using rin seteq by auto
    have le: "s_path r \<le> s_path (last ?cs)"
      unfolding get_children_def by (rule sort_key_last_max[OF rin])
    have "last ?cs \<in> set ?C"
      using last_in_set[OF ne] seteq by simp
    then have l: "length (s_path (last ?cs)) = Suc (length (s_path self))"
      and t: "take (length (s_path self)) (s_path (last ?cs)) = s_path self"
      by (simp_all add: get_depth_def)
    from l have pne: "s_path (last ?cs) \<noteq> []" by auto
    have "butlast (s_path (last ?cs)) = s_path self"
      using l t by (simp add: butlast_conv_take)
    with append_butlast_last_id[OF pne]
    have "s_path (last ?cs) = s_path self @ [last (s_path (last ?cs))]" by simp
    with le r(2) ne have "s_path self @ [Suc (last (s_path (last ?cs)))]
                      \<le> s_path self @ [last (s_path (last ?cs))]"
      by (simp add: is_leaf_def)
    then show False by (simp add: append_le_append)
  qed
qed

lemma append_child_ok:
  assumes "append_child slugify d self label slug = (d', s)" "tree_ok d" "roots_ok d"
    "self \<in> set (section_objects d)"
  shows "tree_ok d'" "roots_ok d'"
proof -
  note f = add_child_fresh_path[OF assms(1)[unfolded append_child_def]]
  have ne: "s_path self \<noteq> []" using assms(2,4) by (auto simp: tree_ok_def)
  then have sne: "s_path s \<noteq> []" using f(2) by auto
  have nr: "\<not> is_root s" using f(3) ne by (simp add: is_root_def get_depth_def)
  show "tree_ok d'"
    using assms(2,4) f(1,2) sne unfolding tree_ok_def f(4) by auto
  show "roots_ok d'"
    using assms(3) nr unfolding roots_ok_def f(4) by auto
qed

lemma empty_db_ok: "tree_ok (empty_db\<lparr>hierarchy_objects := hs\<rparr>) \<and> roots_ok (empty_db\<lparr>hierarchy_objects := hs\<rparr>)"
  by (simp add: tree_ok_def roots_ok_def empty_db_def)

text \<open>
  C6: in a well-formed section table whose roots have label \<^verbatim>\<open>Root\<close> and empty slug, the
  section that \<^verbatim>\<open>Hierarchy.get_root\<close> returns, found or created, is a root of the table it
  leaves, with label \<^verbatim>\<open>Root\<close> and empty slug, and the table is still well formed. Every
  section of the table has a root, and its \<^verbatim>\<open>get_absolute_url()\<close> is the \<^verbatim>\<open>base_url\<close> of the
  hierarchy of that root followed by \<^verbatim>\<open>slug + "/"\<close> for every ancestor that is not the root
  and for the section itself, in order from the root; for a root it is the \<^verbatim>\<open>base_url\<close>
  alone.
\<close>

theorem root_and_absolute_url:
  assumes "tree_ok d" "roots_ok d"
  shows "(\<forall>d' r. Hierarchy_get_root d h = (d', Inr r) \<longrightarrow>
            s_label r = ''Root'' \<and> s_slug r = '''' \<and> is_root r \<and> r \<in> set (section_objects d') \<and>
            tree_ok d' \<and> roots_ok d') \<and>
         (\<forall>s \<in> set (section_objects d).
            \<exists>root. Section_get_root d s = Inr root \<and> is_root root \<and>
              (\<forall>hy. section_hierarchy d root = Inr hy \<longrightarrow>
                 Section_get_absolute_url d s =
                   Inr (h_base_url hy @
                        concat (map (\<lambda>a. s_slug a @ ''/'')
                                  (filter (\<lambda>a. \<not> is_root a) (get_ancestors d s @ [s])))) \<and>
                 (is_root s \<longrightarrow> Section_get_absolute_url d s = Inr (h_base_url hy))))"
proof (intro conjI allI impI ballI)
  fix d' r assume "Hierarchy_get_root d h = (d', Inr r)"
  from Hierarchy_get_root_ok[OF assms this]
  show "s_label r = ''Root''" "s_slug r = ''''" "is_root r" "r \<in> set (section_objects d')"
    "tree_ok d'" "roots_ok d'" by simp_all
next
  fix s assume s: "s \<in> set (section_objects d)"
  from Section_get_root_exists[OF assms(1) s] obtain root where
    root: "Section_get_root d s = Inr root" "is_root root" by blast
  have "\<forall>hy. section_hierarchy d root = Inr hy \<longrightarrow>
          Section_get_absolute_url d s =
            Inr (h_base_url hy @
                 concat (map (\<lambda>a. s_slug a @ ''/'')
                           (filter (\<lambda>a. \<not> is_root a) (get_ancestors d s @ [s])))) \<and>
          (is_root s \<longrightarrow> Section_get_absolute_url d s = Inr (h_base_url hy))"
  proof (intro allI impI conjI)
    fix hy assume hy: "section_hierarchy d root = Inr hy"
    show u: "Section_get_absolute_url d s =
            Inr (h_base_url hy @
                 concat (map (\<lambda>a. s_slug a @ ''/'')
                           (filter (\<lambda>a. \<not> is_root a) (get_ancestors d s @ [s]))))"
      by (rule Section_get_absolute_url_ok[OF assms(1) s root(1) hy])
    assume "is_root s"
    then show "Section_get_absolute_url d s = Inr (h_base_url hy)"
      unfolding u by (simp add: get_ancestors_root)
  qed
  with root show "\<exists>root. Section_get_root d s = Inr root \<and> is_root root \<and>
              (\<forall>hy. section_hierarchy d root = Inr hy \<longrightarrow>
                 Section_get_absolute_url d s =
                   Inr (h_base_url hy @
                        concat (map (\<lambda>a. s_slug a @ ''/'')
                                  (filter (\<lambda>a. \<not> is_root a) (get_ancestors d s @ [s])))) \<and>
                 (is_root s \<longrightarrow> Section_get_absolute_url d s = Inr (h_base_url hy)))"
    by blast
qed

lemma example_db_tree_ok: "tree_ok example_db \<and> roots_ok example_db"
  by (simp add: tree_ok_def roots_ok_def is_root_def get_depth_def example_defs)

theorem root_and_absolute_url_witness:
  "tree_ok example_db \<and> roots_ok example_db \<and>
   Hierarchy_get_root example_db example_hierarchy = (example_db, Inr example_root) \<and>
   s_label example_root = ''Root'' \<and> s_slug example_root = '''' \<and>
   Hierarchy_get_root (empty_db\<lparr>hierarchy_objects := [example_hierarchy]\<rparr>) example_hierarchy =
     (empty_db\<lparr>hierarchy_objects := [example_hierarchy], section_objects := [example_root]\<rparr>,
      Inr example_root) \<and>
   example_intro \<in> set (section_objects example_db) \<and>
   Section_get_root example_db example_intro = Inr example_root \<and>
   section_hierarchy example_db example_root = Inr example_hierarchy \<and>
   get_ancestors example_db example_intro = [example_root] \<and>
   Section_get_absolute_url example_db example_intro = Inr ''/intro/'' \<and>
   Section_get_absolute_url example_db example_root = Inr ''/''"
proof -
  have ok: "tree_ok example_db" "roots_ok example_db"
    using example_db_tree_ok by simp_all
  have g: "Hierarchy_get_root example_db example_hierarchy = (example_db, Inr example_root)"
    by (simp add: eval_defs example_defs)
  have c: "Hierarchy_get_root (empty_db\<lparr>hierarchy_objects := [example_hierarchy]\<rparr>) example_hierarchy =
     (empty_db\<lparr>hierarchy_objects := [example_hierarchy], section_objects := [example_root]\<rparr>,
      Inr example_root)"
    by (simp add: eval_defs example_defs)
  have m: "example_intro \<in> set (section_objects example_db)"
    "example_root \<in> set (section_objects example_db)"
    by (simp_all add: example_db_def)
  have r: "Section_get_root example_db example_intro = Inr example_root"
    "Section_get_root example_db example_root = Inr example_root"
    by (simp_all add: eval_defs example_defs)
  have hy: "section_hierarchy example_db example_root = Inr example_hierarchy"
    by (simp add: section_hierarchy_def objects_get_def example_defs)
  have a: "get_ancestors example_db example_intro = [example_root]"
    by (simp add: get_ancestors_def get_depth_def example_defs)
  have ir: "is_root example_root"
    by (simp add: is_root_def get_depth_def example_defs)
  have sl: "s_label example_root = ''Root''" "s_slug example_root = ''''" "s_slug example_intro = ''intro''"
    "\<not> is_root example_intro" "h_base_url example_hierarchy = ''/''"
    by (simp_all add: is_root_def get_depth_def example_defs)
  note t = root_and_absolute_url[OF ok, of example_hierarchy]
  from t[THEN conjunct2, THEN bspec, OF m(1)] r(1) hy
  have u1: "Section_get_absolute_url example_db example_intro =
          Inr (h_base_url example_hierarchy @
               concat (map (\<lambda>a. s_slug a @ ''/'')
                  (filter (\<lambda>a. \<not> is_root a) (get_ancestors example_db example_intro @ [example_intro]))))"
    by auto
  from t[THEN conjunct2, THEN bspec, OF m(2)] r(2) hy ir
  have u2: "Section_get_absolute_url example_db example_root = Inr (h_base_url example_hierarchy)"
    by auto
  from u1 u2
  have "Section_get_absolute_url example_db example_intro = Inr ''/intro/''"
    "Section_get_absolute_url example_db example_root = Inr ''/''"
    by (simp_all add: a ir sl)
  then show ?thesis
    using ok g c m r hy a ir sl by simp
qed

subsection \<open>Previous and next section\<close>

lemma enumerate_drop:
  "k < length xs \<Longrightarrow> enumerate k (drop k xs) = (k, xs ! k) # enumerate (Suc k) (drop (Suc k) xs)"
  by (simp add: Cons_nth_drop_Suc[symmetric])

lemma get_next_loop_found:
  assumes "distinct (map (\<lambda>x. s_id (fst x)) dft)" "i < length dft"
    "s_id (fst (dft ! i)) = s_id self" "k \<le> i"
  shows "get_next_loop self dft (enumerate k (drop k dft)) =
           (if Suc i < length dft then Some (fst (dft ! Suc i)) else None)"
  using assms(4)
proof (induction "i - k" arbitrary: k)
  case 0
  then have k: "k = i" by simp
  obtain s ai where e: "dft ! i = (s, ai)" by (cases "dft ! i")
  with assms(3) have "s_id s = s_id self" by simp
  then show ?case
    unfolding k enumerate_drop[OF assms(2)] e using e assms(2) by auto
next
  case (Suc n)
  then have k: "k < i" "k < length dft" using assms(2) by simp_all
  obtain s ai where e: "dft ! k = (s, ai)" by (cases "dft ! k")
  have "(map (\<lambda>x. s_id (fst x)) dft ! k = map (\<lambda>x. s_id (fst x)) dft ! i) = (k = i)"
    by (rule nth_eq_iff_index_eq[OF assms(1)]) (use k assms(2) in simp_all)
  then have ne: "s_id s \<noteq> s_id self" using e assms(2,3) k by simp
  have "get_next_loop self dft (enumerate (Suc k) (drop (Suc k) dft)) =
           (if Suc i < length dft then Some (fst (dft ! Suc i)) else None)"
    using Suc.hyps(2) k by (intro Suc.hyps(1)) simp_all
  then show ?case
    unfolding enumerate_drop[OF k(2)] e using ne by simp
qed

lemma get_previous_loop_found:
  assumes "distinct (map (\<lambda>x. s_id (fst x)) dft)" "i < length dft"
    "s_id (fst (dft ! i)) = s_id self" "k \<le> i"
  shows "get_previous_loop self dft (enumerate k (drop k dft)) =
           (if 1 < i \<and> \<not> is_root (fst (dft ! (i - 1))) then Some (fst (dft ! (i - 1))) else None)"
  using assms(4)
proof (induction "i - k" arbitrary: k)
  case 0
  then have k: "k = i" by simp
  obtain s ai where e: "dft ! i = (s, ai)" by (cases "dft ! i")
  with assms(3) have "s_id s = s_id self" by simp
  then show ?case
    unfolding k enumerate_drop[OF assms(2)] e by simp
next
  case (Suc n)
  then have k: "k < i" "k < length dft" using assms(2) by simp_all
  obtain s ai where e: "dft ! k = (s, ai)" by (cases "dft ! k")
  have "(map (\<lambda>x. s_id (fst x)) dft ! k = map (\<lambda>x. s_id (fst x)) dft ! i) = (k = i)"
    by (rule nth_eq_iff_index_eq[OF assms(1)]) (use k assms(2) in simp_all)
  then have ne: "s_id s \<noteq> s_id self" using e assms(2,3) k by simp
  have "get_previous_loop self dft (enumerate (Suc k) (drop (Suc k) dft)) =
           (if 1 < i \<and> \<not> is_root (fst (dft ! (i - 1))) then Some (fst (dft ! (i - 1))) else None)"
    using Suc.hyps(2) k by (intro Suc.hyps(1)) simp_all
  then show ?case
    unfolding enumerate_drop[OF k(2)] e using ne by simp
qed

lemma get_branch_set:
  "set (get_branch d r) =
     {x \<in> set (section_objects d). get_depth r \<le> get_depth x \<and> take (get_depth r) (s_path x) = s_path r}"
  by (auto simp: get_branch_def)

lemma get_branch_sorted: "sorted (map s_path (get_branch d r))"
  by (simp add: get_branch_def)

lemma get_branch_distinct:
  "distinct (map f (section_objects d)) \<Longrightarrow> distinct (map f (get_branch d r))"
proof -
  assume a: "distinct (map f (section_objects d))"
  have "mset (map f (get_branch d r)) =
        mset (map f (filter (\<lambda>x. get_depth r \<le> get_depth x \<and> take (get_depth r) (s_path x) = s_path r)
                (section_objects d)))"
    by (simp add: get_branch_def)
  moreover have "distinct (map f (filter (\<lambda>x. get_depth r \<le> get_depth x \<and>
                   take (get_depth r) (s_path x) = s_path r) (section_objects d)))"
    using a by (rule distinct_map_filter)
  ultimately show ?thesis by (metis mset_eq_imp_distinct_iff)
qed

lemma get_children_fewer_descendants:
  assumes "c \<in> set (get_children d self)"
  shows "length (filter (\<lambda>r. get_depth c < get_depth r \<and> take (get_depth c) (s_path r) = s_path c)
                  (section_objects d))
        < length (filter (\<lambda>r. get_depth self < get_depth r \<and>
                    take (get_depth self) (s_path r) = s_path self) (section_objects d))"
proof -
  from assms have c: "c \<in> set (section_objects d)" "get_depth c = Suc (get_depth self)"
    "take (get_depth self) (s_path c) = s_path self"
    by (auto simp: get_children_def)
  show ?thesis
  proof (rule length_filter_less[where y = c])
    fix x
    assume "get_depth c < get_depth x \<and> take (get_depth c) (s_path x) = s_path c"
    then have "get_depth self < get_depth x" and t: "take (get_depth c) (s_path x) = s_path c"
      using c(2) by auto
    moreover have "take (get_depth self) (s_path x) = s_path self"
    proof -
      have "take (get_depth self) (take (get_depth c) (s_path x)) = take (get_depth self) (s_path x)"
        using c(2) by (simp add: min_def)
      with t c(3) show ?thesis by simp
    qed
    ultimately show "get_depth self < get_depth x \<and> take (get_depth self) (s_path x) = s_path self"
      by simp
  qed (use c in auto)
qed

text \<open>The depth-first traversal of the tree below a section: the section, then the
  traversals of its children, in their order.\<close>

function depth_first :: "db \<Rightarrow> Section \<Rightarrow> Section list" where
  "depth_first d s = s # concat (map (depth_first d) (get_children d s))"
  by pat_completeness auto
termination
  by (relation "measure (\<lambda>(d, s). length (filter (\<lambda>r. get_depth s < get_depth r \<and>
                    take (get_depth s) (s_path r) = s_path s) (section_objects d)))")
     (simp_all add: get_children_fewer_descendants)

declare depth_first.simps [simp del]

lemma lex_prefix_less: "u \<noteq> [] \<Longrightarrow> (p::nat list) < p @ u"
  by (induction p) (auto simp: neq_Nil_conv)

lemma lex_append_less: "k < k' \<Longrightarrow> (p::nat list) @ k # u < p @ k' # v"
  by (induction p) auto

lemma prefix_iff_take:
  "(length p \<le> length x \<and> take (length p) x = p) \<longleftrightarrow> (\<exists>u. x = p @ u)"
  by (metis append_eq_conv_conj append_take_drop_id le_add1 length_append)

lemma get_branch_mem:
  "x \<in> set (get_branch d r) \<longleftrightarrow> x \<in> set (section_objects d) \<and> (\<exists>u. s_path x = s_path r @ u)"
  using prefix_iff_take[of "s_path r" "s_path x"] by (auto simp: get_branch_set get_depth_def)

lemma get_children_mem:
  "c \<in> set (get_children d r) \<longleftrightarrow> c \<in> set (section_objects d) \<and> (\<exists>k. s_path c = s_path r @ [k])"
proof -
  have "(length (s_path c) = Suc (length (s_path r)) \<and> take (length (s_path r)) (s_path c) = s_path r)
        \<longleftrightarrow> (\<exists>k. s_path c = s_path r @ [k])"
  proof
    assume a: "length (s_path c) = Suc (length (s_path r)) \<and> take (length (s_path r)) (s_path c) = s_path r"
    then obtain u where u: "s_path c = s_path r @ u"
      using prefix_iff_take[of "s_path r" "s_path c"] by auto
    with a have "length u = 1" by simp
    then obtain k where "u = [k]" by (cases u) auto
    with u show "\<exists>k. s_path c = s_path r @ [k]" by blast
  next
    assume "\<exists>k. s_path c = s_path r @ [k]"
    then show "length (s_path c) = Suc (length (s_path r)) \<and> take (length (s_path r)) (s_path c) = s_path r"
      by auto
  qed
  then show ?thesis by (auto simp: get_children_def get_depth_def)
qed

lemma sorted_wrt_concat_map:
  "sorted_wrt (\<lambda>a b. \<forall>x\<in>set (g a). \<forall>y\<in>set (g b). P x y) cs \<Longrightarrow>
   (\<forall>c\<in>set cs. sorted_wrt P (g c)) \<Longrightarrow> sorted_wrt P (concat (map g cs))"
  by (induction cs) (auto simp: sorted_wrt_append)

lemma get_branch_strict_sorted:
  assumes "tree_ok d"
  shows "sorted_wrt (\<lambda>x y. s_path x < s_path y) (get_branch d r)"
proof -
  have "distinct (map s_path (section_objects d))" using assms by (simp add: tree_ok_def)
  then have "distinct (map s_path (get_branch d r))" by (rule get_branch_distinct)
  with get_branch_sorted[of d r] have "sorted_wrt (<) (map s_path (get_branch d r))"
    by (simp add: strict_sorted_iff)
  then show ?thesis by (simp add: sorted_wrt_map)
qed

lemma get_children_strict_sorted:
  assumes "tree_ok d"
  shows "sorted_wrt (\<lambda>x y. s_path x < s_path y) (get_children d r)"
proof -
  let ?C = "filter (\<lambda>c. get_depth c = Suc (get_depth r) \<and> take (get_depth r) (s_path c) = s_path r)
              (section_objects d)"
  have "distinct (map s_path (section_objects d))" using assms by (simp add: tree_ok_def)
  then have "distinct (map s_path ?C)" by (rule distinct_map_filter)
  moreover have "mset (map s_path (get_children d r)) = mset (map s_path ?C)"
    by (simp add: get_children_def)
  ultimately have "distinct (map s_path (get_children d r))"
    by (metis mset_eq_imp_distinct_iff)
  moreover have "sorted (map s_path (get_children d r))" by (simp add: get_children_def)
  ultimately have "sorted_wrt (<) (map s_path (get_children d r))"
    by (simp add: strict_sorted_iff)
  then show ?thesis by (simp add: sorted_wrt_map)
qed

text \<open>Path order is depth-first order: the branch of a section of a well-formed table is the
  depth-first traversal of the tree below it.\<close>

lemma get_branch_unfold:
  assumes ok: "tree_ok d" and r: "r \<in> set (section_objects d)"
  shows "get_branch d r = r # concat (map (get_branch d) (get_children d r))"
proof -
  let ?cs = "get_children d r"
  let ?ys = "r # concat (map (get_branch d) ?cs)"
  let ?P = "\<lambda>x y. s_path x < s_path y"
  have dp: "distinct (map s_path (section_objects d))" using ok by (simp add: tree_ok_def)
  then have inj: "inj_on s_path (set (section_objects d))" by (simp add: distinct_map)
  have blocks: "sorted_wrt (\<lambda>a b. \<forall>x\<in>set (get_branch d a). \<forall>y\<in>set (get_branch d b). ?P x y) ?cs"
  proof (rule sorted_wrt_mono_rel[OF _ get_children_strict_sorted[OF ok]])
    fix a b assume a: "a \<in> set ?cs" and b: "b \<in> set ?cs" and lt: "s_path a < s_path b"
    from a b obtain ka kb where k: "s_path a = s_path r @ [ka]" "s_path b = s_path r @ [kb]"
      by (auto simp: get_children_mem)
    have "ka < kb"
    proof (rule ccontr)
      assume "\<not> ka < kb"
      then have "kb = ka \<or> kb < ka" by auto
      then have "s_path b \<le> s_path a"
        using lex_append_less[of kb ka "s_path r" "[]" "[]"] k by auto
      with lt show False by simp
    qed
    show "\<forall>x\<in>set (get_branch d a). \<forall>y\<in>set (get_branch d b). s_path x < s_path y"
    proof (intro ballI)
      fix x y assume "x \<in> set (get_branch d a)" "y \<in> set (get_branch d b)"
      then obtain u v where "s_path x = s_path a @ u" "s_path y = s_path b @ v"
        by (auto simp: get_branch_mem)
      then show "s_path x < s_path y"
        using lex_append_less[OF \<open>ka < kb\<close>, of "s_path r" u v] k by simp
    qed
  qed
  have "sorted_wrt ?P (concat (map (get_branch d) ?cs))"
    by (rule sorted_wrt_concat_map[OF blocks]) (simp add: get_branch_strict_sorted[OF ok])
  moreover have "\<forall>y\<in>set (concat (map (get_branch d) ?cs)). s_path r < s_path y"
  proof
    fix y assume "y \<in> set (concat (map (get_branch d) ?cs))"
    then obtain c where c: "c \<in> set ?cs" "y \<in> set (get_branch d c)" by auto
    then obtain k v where "s_path c = s_path r @ [k]" "s_path y = s_path c @ v"
      by (auto simp: get_children_mem get_branch_mem)
    then have "s_path y = s_path r @ (k # v)" by simp
    then show "s_path r < s_path y" using lex_prefix_less[of "k # v" "s_path r"] by simp
  qed
  ultimately have sy: "sorted_wrt ?P ?ys" by simp
  then have sy': "sorted (map s_path ?ys)" "distinct (map s_path ?ys)"
    using strict_sorted_iff[of "map s_path ?ys"] by (simp_all add: sorted_wrt_map)
  have sx: "sorted (map s_path (get_branch d r))" "distinct (map s_path (get_branch d r))"
    using get_branch_sorted[of d r] get_branch_distinct[OF dp, of r] by simp_all
  have seteq: "set (get_branch d r) = set ?ys"
  proof (intro set_eqI iffI)
    fix x assume "x \<in> set (get_branch d r)"
    then obtain u where x: "x \<in> set (section_objects d)" "s_path x = s_path r @ u"
      by (auto simp: get_branch_mem)
    show "x \<in> set ?ys"
    proof (cases u)
      case Nil
      with x r inj have "x = r" by (auto dest: inj_onD)
      then show ?thesis by simp
    next
      case (Cons k v)
      have "1 \<le> Suc (length (s_path r))" "Suc (length (s_path r)) \<le> length (s_path x)"
        using x(2) Cons by simp_all
      from prefix_row[OF ok x(1) this] obtain c where
        c: "c \<in> set (section_objects d)" "s_path c = take (Suc (length (s_path r))) (s_path x)"
        by blast
      have pc: "s_path c = s_path r @ [k]" using c(2) x(2) Cons by simp
      then have "c \<in> set ?cs" using c(1) by (auto simp: get_children_mem)
      moreover have "x \<in> set (get_branch d c)"
        using x pc Cons by (auto simp: get_branch_mem)
      ultimately show ?thesis by auto
    qed
  next
    fix x assume "x \<in> set ?ys"
    then consider "x = r" | c where "c \<in> set ?cs" "x \<in> set (get_branch d c)" by auto
    then show "x \<in> set (get_branch d r)"
    proof cases
      case 1
      with r show ?thesis by (simp add: get_branch_mem)
    next
      case 2
      then obtain k v where "s_path c = s_path r @ [k]" "s_path x = s_path c @ v"
        "x \<in> set (section_objects d)"
        by (auto simp: get_children_mem get_branch_mem)
      then show ?thesis by (simp add: get_branch_mem)
    qed
  qed
  have sub: "set (get_branch d r) \<subseteq> set (section_objects d)" by (auto simp: get_branch_mem)
  have "inj_on s_path (set (get_branch d r) \<union> set ?ys)"
    using inj sub seteq by (metis inj_on_subset sup.idem)
  then show ?thesis
    using sx sy' seteq by (rule map_sorted_distinct_set_unique)
qed

lemma get_branch_depth_first:
  "tree_ok d \<Longrightarrow> r \<in> set (section_objects d) \<Longrightarrow> get_branch d r = depth_first d r"
proof (induction d r rule: depth_first.induct)
  case (1 d s)
  have m: "map (get_branch d) (get_children d s) = map (depth_first d) (get_children d s)"
  proof (rule map_cong[OF refl])
    fix c assume c: "c \<in> set (get_children d s)"
    then have "c \<in> set (section_objects d)" by (simp add: get_children_mem)
    then show "get_branch d c = depth_first d c" using "1.IH"[OF c "1.prems"(1)] by simp
  qed
  have "get_branch d s = s # concat (map (get_branch d) (get_children d s))"
    by (rule get_branch_unfold[OF "1.prems"])
  then show ?case
    unfolding m by (simp add: depth_first.simps[of d s])
qed

text \<open>
  When the table holds the tree of one root only, \<^verbatim>\<open>get_next\<close> and \<^verbatim>\<open>get_previous\<close> are the
  neighbours in the depth-first traversal of that tree: with the section at position \<open>i\<close>,
  \<^verbatim>\<open>get_next\<close> is the node at \<open>i + 1\<close>, or \<^verbatim>\<open>None\<close> at the end, and \<^verbatim>\<open>get_previous\<close> is the
  node at \<open>i - 1\<close>, or \<^verbatim>\<open>None\<close> when there is none or it is the root.
\<close>

lemma get_next_previous_one_tree:
  assumes "tree_ok d" "distinct (map s_id (section_objects d))" "self \<in> set (section_objects d)"
    and one_tree: "\<forall>x\<in>set (section_objects d). take 1 (s_path x) = take 1 (s_path self)"
  shows "\<exists>root i. Section_get_root d self = Inr root \<and>
           i < length (depth_first d root) \<and> depth_first d root ! i = self \<and>
           get_next d self =
             Inr (if Suc i < length (depth_first d root) then Some (depth_first d root ! Suc i)
                  else None) \<and>
           get_previous d self =
             Inr (if i = 0 \<or> depth_first d root ! (i - 1) = root then None
                  else Some (depth_first d root ! (i - 1)))"
proof -
  from Section_get_root_exists[OF assms(1,3)] obtain root where
    root: "Section_get_root d self = Inr root" "is_root root" "root \<in> set (section_objects d)"
    by blast
  have proot: "s_path root = take 1 (s_path self)"
    using Section_get_root_is_root(3)[OF assms(1,3) root(1)] .
  let ?L = "get_tree d None"
  let ?dft = "get_annotated_list d None"
  have all: "\<And>x. x \<in> set (section_objects d) \<Longrightarrow>
               get_depth root \<le> get_depth x \<and> take (get_depth root) (s_path x) = s_path root"
  proof -
    fix x assume x: "x \<in> set (section_objects d)"
    then have "s_path x \<noteq> []" using assms(1) by (auto simp: tree_ok_def)
    then have "1 \<le> length (s_path x)" by (cases "s_path x") simp_all
    moreover have "get_depth root = 1" using root(2) by (simp add: is_root_def)
    ultimately show "get_depth root \<le> get_depth x \<and> take (get_depth root) (s_path x) = s_path root"
      using one_tree x proot by (simp add: get_depth_def)
  qed
  have B: "?L = get_branch d root"
    using all by (simp add: get_tree_def get_branch_def)
  have L: "?L = depth_first d root"
    unfolding B by (rule get_branch_depth_first[OF assms(1) root(3)])
  have "s_path self = s_path root @ drop 1 (s_path self)" unfolding proot by simp
  then have "self \<in> set ?L" unfolding B using assms(3) by (auto simp: get_branch_mem)
  then obtain i where i: "i < length ?L" "?L ! i = self" by (meson in_set_conv_nth)
  define sd where "sd = (case ?L of [] \<Rightarrow> 0 | n # ns \<Rightarrow> get_depth n)"
  have dft: "?dft = map (\<lambda>n. (n, get_depth n - sd)) ?L"
    by (simp add: get_annotated_list_def Let_def sd_def)
  have len: "length ?dft = length ?L" by (simp add: dft)
  have fst_dft: "\<And>j. j < length ?L \<Longrightarrow> fst (?dft ! j) = ?L ! j" by (simp add: dft)
  have dist: "distinct (map (\<lambda>x. s_id (fst x)) ?dft)"
    using get_branch_distinct[OF assms(2), of root] by (simp add: dft comp_def B)
  have i': "i < length ?dft" "s_id (fst (?dft ! i)) = s_id self"
    using i by (simp_all add: dft)
  have nx: "get_next_loop self ?dft (enumerate 0 ?dft) =
              (if Suc i < length ?dft then Some (fst (?dft ! Suc i)) else None)"
    using get_next_loop_found[OF dist i', of 0] by simp
  have pv: "get_previous_loop self ?dft (enumerate 0 ?dft) =
              (if 1 < i \<and> \<not> is_root (fst (?dft ! (i - 1))) then Some (fst (?dft ! (i - 1))) else None)"
    using get_previous_loop_found[OF dist i', of 0] by simp
  have next_eq: "get_next d self = Inr (if Suc i < length ?L then Some (?L ! Suc i) else None)"
    using root(1) nx by (simp add: get_next_def Let_def len fst_dft)
  have hd: "?L ! 0 = root"
    unfolding B using get_branch_unfold[OF assms(1) root(3)] by simp
  have dL: "distinct ?L"
    unfolding B using get_branch_distinct[OF assms(2), of root] by (simp add: distinct_map)
  have prev_spec: "(if 1 < i \<and> \<not> is_root (?L ! (i - 1)) then Some (?L ! (i - 1)) else None) =
                   (if i = 0 \<or> ?L ! (i - 1) = root then None else Some (?L ! (i - 1)))"
  proof (cases "1 < i")
    case False
    then have "i = 0 \<or> i = 1" by auto
    then show ?thesis using hd by auto
  next
    case True
    then have j: "i - 1 < length ?L" "i - 1 \<noteq> 0" using i(1) by simp_all
    have "0 < length ?L" using i(1) by (cases "get_tree d None") simp_all
    from nth_eq_iff_index_eq[OF dL j(1) this] j(2)
    have ne: "?L ! (i - 1) \<noteq> root" unfolding hd by simp
    have "?L ! (i - 1) \<in> set ?L" using j(1) by simp
    then obtain u where u: "?L ! (i - 1) \<in> set (section_objects d)"
      "s_path (?L ! (i - 1)) = s_path root @ u" unfolding B by (auto simp: get_branch_mem)
    have "u \<noteq> []"
    proof
      assume "u = []"
      then have "s_path (?L ! (i - 1)) = s_path root" using u(2) by simp
      moreover have "inj_on s_path (set (section_objects d))"
        using assms(1) by (simp add: tree_ok_def distinct_map)
      ultimately have "?L ! (i - 1) = root" using u(1) root(3) by (auto dest: inj_onD)
      with ne show False by simp
    qed
    then have "\<not> is_root (?L ! (i - 1))"
      using u(2) root(2) by (cases u) (simp_all add: is_root_def get_depth_def)
    with True ne show ?thesis by simp
  qed
  have prev_eq: "get_previous d self =
                   Inr (if i = 0 \<or> ?L ! (i - 1) = root then None else Some (?L ! (i - 1)))"
  proof -
    have f: "fst (?dft ! (i - 1)) = ?L ! (i - 1)" using i(1) by (intro fst_dft) simp
    have "get_previous d self = Inr (get_previous_loop self ?dft (enumerate 0 ?dft))"
      using root(1) by (simp add: get_previous_def Let_def)
    also have "\<dots> = Inr (if 1 < i \<and> \<not> is_root (?L ! (i - 1)) then Some (?L ! (i - 1)) else None)"
      unfolding pv f by (rule refl)
    finally show ?thesis unfolding prev_spec .
  qed
  show ?thesis
    using root(1) i next_eq prev_eq unfolding L by blast
qed

text \<open>The small site with two more pages.\<close>

definition example_part :: Section where
  "example_part = \<lparr>s_id = 3, s_path = [1, 1, 1], s_label = ''Part one'', s_slug = ''part-one'',
     s_hierarchy = 1\<rparr>"

definition example_outro :: Section where
  "example_outro = \<lparr>s_id = 4, s_path = [1, 2], s_label = ''Conclusion'', s_slug = ''outro'',
     s_hierarchy = 1\<rparr>"

definition example_nav_db :: db where
  "example_nav_db = example_db\<lparr>section_objects :=
     [example_root, example_intro, example_outro, example_part]\<rparr>"

lemmas nav_defs = example_nav_db_def example_part_def example_outro_def example_defs

lemma example_nav_depth_first:
  "depth_first example_nav_db example_root =
     [example_root, example_intro, example_part, example_outro]"
  by (simp add: depth_first.simps get_children_def get_depth_def nav_defs)

lemma example_nav_ok:
  "tree_ok example_nav_db" "distinct (map s_id (section_objects example_nav_db))"
  "example_part \<in> set (section_objects example_nav_db)"
  "\<forall>x\<in>set (section_objects example_nav_db). take 1 (s_path x) = take 1 (s_path example_part)"
  by (simp_all add: tree_ok_def get_depth_def nav_defs)

lemma get_next_previous_one_tree_example:
  "get_next example_nav_db example_part = Inr (Some example_outro) \<and>
   get_previous example_nav_db example_part = Inr (Some example_intro)"
proof -
  have r: "Section_get_root example_nav_db example_part = Inr example_root"
    by (simp add: Section_get_root_def objects_get_def nav_defs)
  note L = example_nav_depth_first
  from get_next_previous_one_tree[OF example_nav_ok] obtain root i where
    t: "Section_get_root example_nav_db example_part = Inr root"
       "i < length (depth_first example_nav_db root)"
       "depth_first example_nav_db root ! i = example_part"
       "get_next example_nav_db example_part =
             Inr (if Suc i < length (depth_first example_nav_db root)
                  then Some (depth_first example_nav_db root ! Suc i) else None)"
       "get_previous example_nav_db example_part =
             Inr (if i = 0 \<or> depth_first example_nav_db root ! (i - 1) = root then None
                  else Some (depth_first example_nav_db root ! (i - 1)))"
    by blast
  from t(1) r have root: "root = example_root" by simp
  have ne: "example_root \<noteq> example_part" "example_intro \<noteq> example_part"
    "example_outro \<noteq> example_part" "example_intro \<noteq> example_root"
    by (simp_all add: nav_defs)
  from t(2,3) have "i = 2"
    unfolding root L using ne by (auto simp: less_Suc_eq numeral_eq_Suc)
  with t(4,5) show ?thesis
    unfolding root L using ne by simp
qed

text \<open>The small site next to a second hierarchy, which has its root only.\<close>

definition example_other_hierarchy :: Hierarchy where
  "example_other_hierarchy = \<lparr>h_id = 2, h_name = ''other'', h_base_url = ''/other/''\<rparr>"

definition example_other_root :: Section where
  "example_other_root = \<lparr>s_id = 3, s_path = [2], s_label = ''Root'', s_slug = '''',
     s_hierarchy = 2\<rparr>"

definition example_two_db :: db where
  "example_two_db = empty_db\<lparr>hierarchy_objects := [example_hierarchy, example_other_hierarchy],
     section_objects := [example_root, example_intro, example_other_root]\<rparr>"

lemmas two_defs = example_two_db_def example_other_hierarchy_def example_other_root_def example_defs

text \<open>
  C5: \<^verbatim>\<open>get_next()\<close> should be the node after the section in the depth-first traversal of
  the section's own tree, \<^verbatim>\<open>None\<close> for its last node, and \<^verbatim>\<open>get_previous()\<close> should be
  \<^verbatim>\<open>None\<close> for a section without predecessor. With two hierarchies in the table the
  traversal that both methods walk is that of the whole table: the last page of the first
  tree gets the root of the second hierarchy as its next section, and that root gets the
  page as its previous section.
\<close>

theorem get_next_leaves_the_tree:
  "Hierarchy_get_root example_two_db example_hierarchy = (example_two_db, Inr example_root) \<and>
   Hierarchy_get_root example_two_db example_other_hierarchy =
     (example_two_db, Inr example_other_root) \<and>
   Section_get_root example_two_db example_intro = Inr example_root \<and>
   depth_first example_two_db example_root = [example_root, example_intro] \<and>
   map fst (get_annotated_list example_two_db None) =
     [example_root, example_intro, example_other_root] \<and>
   get_next example_two_db example_intro = Inr (Some example_other_root) \<and>
   get_previous example_two_db example_other_root = Inr (Some example_intro)"
  by (simp add: eval_defs get_next_def get_previous_def get_annotated_list_def get_tree_def
      depth_first.simps is_root_def two_defs)

subsection \<open>Export and import\<close>

text \<open>\<^verbatim>\<open>add_pageblock_from_dict\<close> calls \<^verbatim>\<open>append_pageblock\<close> with the keyword \<^verbatim>\<open>css_extra\<close>,
  which is none of its parameters: the call raises, and no import ever stores a pageblock.\<close>

lemma append_pageblock_by_keyword_css_extra:
  "append_pageblock_by_keyword d self [''label'', ''css_extra'', ''content_object''] label blk =
     (d, Inl TypeError)"
  by (simp add: append_pageblock_by_keyword_def append_pageblock_parameters_def)

lemma add_pageblock_from_dict_loop_db:
  "fst (add_pageblock_from_dict_loop d self dict blocktype classes) = d"
  by (induction classes)
     (auto simp: append_pageblock_by_keyword_css_extra split: option.splits sum.splits)

lemma add_pageblock_from_dict_db: "fst (add_pageblock_from_dict PAGEBLOCKS d self dict) = d"
  by (simp add: add_pageblock_from_dict_def add_pageblock_from_dict_loop_db)

lemma add_pageblocks_from_dicts_db: "fst (add_pageblocks_from_dicts PAGEBLOCKS d s pbs) = d"
proof (induction pbs)
  case Nil
  then show ?case by simp
next
  case (Cons pb pbs)
  obtain d' r where a: "add_pageblock_from_dict PAGEBLOCKS d s pb = (d', r)"
    by (cases "add_pageblock_from_dict PAGEBLOCKS d s pb")
  with add_pageblock_from_dict_db[of PAGEBLOCKS d s pb] have "d' = d" by simp
  with a Cons show ?case by (cases r) simp_all
qed

lemma add_child_pageblocks:
  "pageblock_objects (fst (add_child d self label slug h)) = pageblock_objects d"
  by (simp add: add_child_def Let_def)

lemma add_child_sections_pageblocks:
  "pageblock_objects (fst (add_child_section_from_dict slugify PAGEBLOCKS d self sd)) =
     pageblock_objects d"
  "pageblock_objects (fst (add_child_sections_from_dicts slugify PAGEBLOCKS d self sds)) =
     pageblock_objects d"
proof (induction slugify PAGEBLOCKS d self sd and slugify PAGEBLOCKS d self sds
    rule: add_child_section_from_dict_add_child_sections_from_dicts.induct)
  case (1 slugify PAGEBLOCKS d self label slug pbs cs)
  obtain d1 s where a: "append_child slugify d self label slug = (d1, s)"
    by (cases "append_child slugify d self label slug")
  then have p1: "pageblock_objects d1 = pageblock_objects d"
    using add_child_pageblocks[of d self label "if slug = [] then slugify label else slug" "s_hierarchy self"]
    by (simp add: append_child_def)
  obtain d2 r where b: "add_pageblocks_from_dicts PAGEBLOCKS d1 s pbs = (d2, r)"
    by (cases "add_pageblocks_from_dicts PAGEBLOCKS d1 s pbs")
  with add_pageblocks_from_dicts_db[of PAGEBLOCKS d1 s pbs] have d2: "d2 = d1" by simp
  show ?case
  proof (cases r)
    case (Inl e)
    with a b d2 p1 show ?thesis by simp
  next
    case (Inr u)
    with "1.IH"[OF a[symmetric] b[symmetric] Inr] a b d2 p1 show ?thesis by simp
  qed
next
  case (2 slugify PAGEBLOCKS d self)
  then show ?case by simp
next
  case (3 slugify PAGEBLOCKS d self c cs)
  obtain d' r where a: "add_child_section_from_dict slugify PAGEBLOCKS d self c = (d', r)"
    by (cases "add_child_section_from_dict slugify PAGEBLOCKS d self c")
  with "3.IH"(1) have p: "pageblock_objects d' = pageblock_objects d" by simp
  show ?case
  proof (cases r)
    case (Inl e)
    with a p show ?thesis by simp
  next
    case (Inr u)
    with "3.IH"(2)[OF a[symmetric] Inr] a p show ?thesis by simp
  qed
qed

lemma add_section_from_dict_pageblocks:
  "pageblock_objects (fst (add_section_from_dict slugify PAGEBLOCKS d h sd)) = pageblock_objects d"
proof -
  obtain d1 s where a: "add_root d ''Root'' '''' (h_id h) = (d1, s)"
    by (cases "add_root d ''Root'' '''' (h_id h)")
  then have p1: "pageblock_objects d1 = pageblock_objects d"
    by (auto simp: add_root_def Let_def)
  obtain d2 r where b: "add_pageblocks_from_dicts PAGEBLOCKS d1 s (sd_pageblocks sd) = (d2, r)"
    by (cases "add_pageblocks_from_dicts PAGEBLOCKS d1 s (sd_pageblocks sd)")
  with add_pageblocks_from_dicts_db[of PAGEBLOCKS d1 s "sd_pageblocks sd"] have d2: "d2 = d1" by simp
  obtain d3 r' where c: "add_child_sections_from_dicts slugify PAGEBLOCKS d1 s (sd_children sd) = (d3, r')"
    by (cases "add_child_sections_from_dicts slugify PAGEBLOCKS d1 s (sd_children sd)")
  with add_child_sections_pageblocks(2)[of slugify PAGEBLOCKS d1 s "sd_children sd"]
  have p3: "pageblock_objects d3 = pageblock_objects d1" by simp
  show ?thesis
    using a b c d2 p1 p3 by (cases r; cases r') (simp_all add: add_section_from_dict_def)
qed

lemma add_sections_from_dicts_pageblocks:
  "pageblock_objects (fst (add_sections_from_dicts slugify PAGEBLOCKS d h sds)) = pageblock_objects d"
proof (induction sds arbitrary: d)
  case Nil
  then show ?case by simp
next
  case (Cons sd sds)
  obtain d' r where a: "add_section_from_dict slugify PAGEBLOCKS d h sd = (d', r)"
    by (cases "add_section_from_dict slugify PAGEBLOCKS d h sd")
  with add_section_from_dict_pageblocks[of slugify PAGEBLOCKS d h sd]
  have p: "pageblock_objects d' = pageblock_objects d" by simp
  show ?case
    using a p Cons.IH[of d'] by (cases r) simp_all
qed

lemma from_dict_creates_no_pageblock:
  "pageblock_objects (fst (from_dict slugify PAGEBLOCKS d dict)) = pageblock_objects d"
proof -
  let ?h = "\<lparr>h_id = next_id (map h_id (hierarchy_objects d)),
               h_name = (case hd_name dict of None \<Rightarrow> '''' | Some n \<Rightarrow> n),
               h_base_url = (case hd_base_url dict of None \<Rightarrow> ''/'' | Some b \<Rightarrow> b)\<rparr>"
  let ?d1 = "d\<lparr>hierarchy_objects := hierarchy_objects d @ [?h]\<rparr>"
  obtain d' r where a: "add_sections_from_dicts slugify PAGEBLOCKS ?d1 ?h (hd_sections dict) = (d', r)"
    by (cases "add_sections_from_dicts slugify PAGEBLOCKS ?d1 ?h (hd_sections dict)")
  with add_sections_from_dicts_pageblocks[of slugify PAGEBLOCKS ?d1 ?h "hd_sections dict"]
  have "pageblock_objects d' = pageblock_objects d" by simp
  with a show ?thesis by (cases r) (simp_all add: from_dict_def Let_def)
qed

text \<open>A pageblock class that can be exported and created from a dictionary, and the small
  site with one such block on its page.\<close>

definition text_block :: "string \<Rightarrow> Block" where
  "text_block body = \<lparr>display_name = ''Text Block'', needs_submit = Some False,
     redirect_to_self_on_submit = Some True, block_as_dict = Some [''body'' \<mapsto> PyStr body]\<rparr>"

definition text_block_class :: pageblock_class where
  "text_block_class = \<lparr>pc_display_name = ''Text Block'',
     create_from_dict = Some (\<lambda>d. case d ''body'' of Some (PyStr body) \<Rightarrow> Inr (text_block body)
                                   | _ \<Rightarrow> Inl TypeError)\<rparr>"

definition example_text :: PageBlock where
  "example_text = \<lparr>pb_id = 1, pb_section = 2, pb_ordinality = 1, pb_label = PyStr ''Welcome'',
     pb_css_extra = PyStr ''wide'', pb_content_object = text_block ''hello''\<rparr>"

definition example_text_db :: db where
  "example_text_db = example_db\<lparr>pageblock_objects := [example_text]\<rparr>"

definition example_text_dict :: hierarchy_dict where
  "example_text_dict =
     \<lparr>hd_name = Some ''main'', hd_base_url = Some ''/'',
      hd_sections =
        [SectionDict ''Root'' '''' []
           [SectionDict ''Introduction'' ''intro'' [PageBlock_as_dict example_text] []]]\<rparr>"

lemmas text_defs = example_text_db_def example_text_def text_block_def text_block_class_def

lemma example_text_as_dict:
  "Hierarchy_as_dict example_text_db example_hierarchy = (example_text_db, Inr example_text_dict)"
  by (simp add: Hierarchy_as_dict_def eval_defs Section_as_dict.simps pageblock_set_def
      example_text_dict_def text_defs example_defs)

text \<open>
  C2: \<^verbatim>\<open>Hierarchy.from_dict(h.as_dict())\<close> should rebuild the hierarchy with the pageblocks
  of every section whose block type is available and has \<^verbatim>\<open>create_from_dict\<close>. For the small
  site with one text block the export succeeds, and the import of that export raises
  \<^verbatim>\<open>TypeError\<close> at the block and leaves no pageblock in the database.
\<close>

theorem from_dict_as_dict_raises:
  "Hierarchy_as_dict example_text_db example_hierarchy = (example_text_db, Inr example_text_dict) \<and>
   snd (from_dict (\<lambda>label. label) (Some [text_block_class]) empty_db example_text_dict)
     = Inl TypeError \<and>
   pageblock_objects
     (fst (from_dict (\<lambda>label. label) (Some [text_block_class]) empty_db example_text_dict)) = []"
proof -
  have "snd (from_dict (\<lambda>label. label) (Some [text_block_class]) empty_db example_text_dict)
     = Inl TypeError"
    by (simp add: from_dict_def add_section_from_dict_def add_root_def append_child_def
        add_child_def is_leaf_def get_children_def get_depth_def add_pageblock_from_dict_def
        available_pageblocks_def dict_get_def PageBlock_as_dict_def
        append_pageblock_by_keyword_css_extra next_id_def Let_def example_text_dict_def
        text_defs empty_db_def)
  then show ?thesis
    using example_text_as_dict from_dict_creates_no_pageblock[of "\<lambda>label. label"
        "Some [text_block_class]" empty_db example_text_dict]
    by (simp add: empty_db_def)
qed

end
